theory Spec2Isabelle
  imports Complex_Main "HOL-Library.Word"
begin

section \<open>Filter nodes of the data frame: memoised checks\<close>

text \<open>
  Entries are \<^verbatim>\<open>Long64_t\<close> row indices; the code only compares them and uses
  \<open>-1\<close> as the "nothing checked yet" value, so they are modelled as \<open>int\<close>.
  A processing slot is an index into the per-slot vectors of a node.
\<close>

type_synonym entry = int

type_synonym slot = nat

text \<open>
  The per-slot members of \<^verbatim>\<open>TDataFrameFilterBase\<close>: \<^verbatim>\<open>std::vector<Long64_t>
  fLastCheckedEntry\<close>, \<^verbatim>\<open>std::vector<int> fLastResult\<close> and the two
  \<^verbatim>\<open>std::vector<ULong64_t>\<close> counters, each indexed by slot, and the name of the filter
  (empty when the filter is not named).
\<close>

record TDataFrameFilterBase =
  fLastCheckedEntry :: "int list"
  fLastResult :: "int list"
  fAccepted :: "64 word list"
  fRejected :: "64 word list"
  fName :: string

text \<open>
  The default member initialisers: one slot, nothing checked, result \<^verbatim>\<open>true\<close>; the
  constructor then stores the name.
\<close>

definition TDataFrameFilterBase_init :: TDataFrameFilterBase where
  "TDataFrameFilterBase_init =
     \<lparr>fLastCheckedEntry = [-1], fLastResult = [1], fAccepted = [0], fRejected = [0], fName = []\<rparr>"

text \<open>
  What the event loop does that a user could observe: a filter's predicate, a temporary
  branch's expression or an action's callable is invoked on the column values of one
  entry in one slot (\<^verbatim>\<open>GetBranchValue\<close> is only called to build the arguments of such
  an invocation), or the loop itself starts.
\<close>

datatype event =
    FilterEval nat slot entry
  | BranchEval nat slot entry
  | ActionExec nat slot entry
  | RunLoop

text \<open>
  The filter objects live at addresses (here: natural numbers); several downstream nodes
  hold a reference \<^verbatim>\<open>fPrevData\<close> to the same filter, so their state is kept in a
  store indexed by address.
\<close>

record loop_state =
  filters :: "nat \<Rightarrow> TDataFrameFilterBase"
  trace :: "event list"

text \<open>
  The upstream path of a node, as the chain of \<^verbatim>\<open>fPrevData\<close> references: the
  \<^verbatim>\<open>TDataFrameImpl\<close> at the root, filters (address, predicate as a function of the
  entry whose column values it receives, upstream node) and temporary branches (address,
  upstream node).
\<close>

datatype node =
    Impl
  | Filter nat "entry \<Rightarrow> bool" node
  | Branch nat node

definition bool_to_int :: "bool \<Rightarrow> int" where
  "bool_to_int b = (if b then 1 else 0)"

definition setLastResult :: "nat \<Rightarrow> slot \<Rightarrow> int \<Rightarrow> loop_state \<Rightarrow> loop_state" where
  "setLastResult f sl v s =
     s\<lparr>filters := (filters s)(f := (filters s f)\<lparr>fLastResult := (fLastResult (filters s f))[sl := v]\<rparr>)\<rparr>"

definition setLastCheckedEntry :: "nat \<Rightarrow> slot \<Rightarrow> entry \<Rightarrow> loop_state \<Rightarrow> loop_state" where
  "setLastCheckedEntry f sl e s =
     s\<lparr>filters := (filters s)(f := (filters s f)\<lparr>fLastCheckedEntry := (fLastCheckedEntry (filters s f))[sl := e]\<rparr>)\<rparr>"

definition incAccepted :: "nat \<Rightarrow> slot \<Rightarrow> loop_state \<Rightarrow> loop_state" where
  "incAccepted f sl s =
     s\<lparr>filters := (filters s)(f := (filters s f)\<lparr>fAccepted := (fAccepted (filters s f))[sl := fAccepted (filters s f) ! sl + 1]\<rparr>)\<rparr>"

definition incRejected :: "nat \<Rightarrow> slot \<Rightarrow> loop_state \<Rightarrow> loop_state" where
  "incRejected f sl s =
     s\<lparr>filters := (filters s)(f := (filters s f)\<lparr>fRejected := (fRejected (filters s f))[sl := fRejected (filters s f) ! sl + 1]\<rparr>)\<rparr>"

definition logEvent :: "event \<Rightarrow> loop_state \<Rightarrow> loop_state" where
  "logEvent ev s = s\<lparr>trace := trace s @ [ev]\<rparr>"

text \<open>
  \<^verbatim>\<open>CheckFilterHelper\<close> followed by the counter update and the store of the result:
  the \<^verbatim>\<open>else\<close> branch of \<^verbatim>\<open>TDataFrameFilter::CheckFilters\<close>.
\<close>

definition evaluateFilter :: "nat \<Rightarrow> (entry \<Rightarrow> bool) \<Rightarrow> slot \<Rightarrow> entry \<Rightarrow> loop_state \<Rightarrow> loop_state" where
  "evaluateFilter f p sl e s =
     (let passed = p e;
          s1 = logEvent (FilterEval f sl e) s;
          s2 = (if passed then incAccepted f sl s1 else incRejected f sl s1)
      in setLastResult f sl (bool_to_int passed) s2)"

text \<open>
  \<^verbatim>\<open>CheckFilters\<close> of the three node classes. \<^verbatim>\<open>TDataFrameBranch\<close> forwards to the
  previous node. \<^verbatim>\<open>TDataFrameFilter\<close> is the memoised check.

  Modelled from the spec: \<^verbatim>\<open>TDataFrameImpl::CheckFilters\<close> is declared in the header
  and defined elsewhere; the chain root has no filter of its own, so it lets every
  entry pass.
\<close>

fun CheckFilters :: "node \<Rightarrow> slot \<Rightarrow> entry \<Rightarrow> loop_state \<Rightarrow> bool \<times> loop_state" where
  "CheckFilters Impl sl e s = (True, s)"
| "CheckFilters (Branch b prev) sl e s = CheckFilters prev sl e s"
| "CheckFilters (Filter f p prev) sl e s =
     (if e \<noteq> fLastCheckedEntry (filters s f) ! sl then
        (case CheckFilters prev sl e s of
           (ok, s1) \<Rightarrow>
             (let s2 = (if \<not> ok then setLastResult f sl (bool_to_int False) s1
                        else evaluateFilter f p sl e s1);
                  s3 = setLastCheckedEntry f sl e s2
              in (fLastResult (filters s3 f) ! sl \<noteq> 0, s3)))
      else (fLastResult (filters s f) ! sl \<noteq> 0, s))"

subsection \<open>What the properties of a chain are stated with\<close>

text \<open>
  The addresses of the filters on the upstream path of a node. The nodes of a graph are
  distinct objects, so these addresses are distinct on every path. A slot is usable for a
  filter when its four per-slot vectors reach it (the code indexes them unchecked).
\<close>

fun fids :: "node \<Rightarrow> nat list" where
  "fids Impl = []"
| "fids (Branch b prev) = fids prev"
| "fids (Filter f p prev) = f # fids prev"

definition slot_ok :: "loop_state \<Rightarrow> slot \<Rightarrow> nat \<Rightarrow> bool" where
  "slot_ok s sl f \<longleftrightarrow>
     sl < length (fLastCheckedEntry (filters s f)) \<and> sl < length (fLastResult (filters s f)) \<and>
     sl < length (fAccepted (filters s f)) \<and> sl < length (fRejected (filters s f))"

text \<open>
  \<open>passes n e\<close>: every predicate on the upstream path of \<open>n\<close> accepts the entry.
  \<open>memo_ok\<close>: whatever a filter on the path has memoised for the entry is what its
  predicate and those upstream of it say.
\<close>

fun passes :: "node \<Rightarrow> entry \<Rightarrow> bool" where
  "passes Impl e = True"
| "passes (Branch b prev) e = passes prev e"
| "passes (Filter f p prev) e = (passes prev e \<and> p e)"

fun memo_ok :: "node \<Rightarrow> slot \<Rightarrow> entry \<Rightarrow> loop_state \<Rightarrow> bool" where
  "memo_ok Impl sl e s = True"
| "memo_ok (Branch b prev) sl e s = memo_ok prev sl e s"
| "memo_ok (Filter f p prev) sl e s =
     (memo_ok prev sl e s \<and>
      (fLastCheckedEntry (filters s f) ! sl = e \<longrightarrow>
         (fLastResult (filters s f) ! sl \<noteq> 0) = (passes prev e \<and> p e)))"

text \<open>
  The entries on which the predicate of a filter was invoked in a slot, read off a trace.
\<close>

fun evaluated :: "nat \<Rightarrow> slot \<Rightarrow> event list \<Rightarrow> entry list" where
  "evaluated f sl [] = []"
| "evaluated f sl (ev # evs) =
     (case ev of
        FilterEval f' sl' e \<Rightarrow> (if f' = f \<and> sl' = sl then e # evaluated f sl evs else evaluated f sl evs)
      | _ \<Rightarrow> evaluated f sl evs)"

text \<open>
  A pass as seen by the filters: the sequence of consultations \<^verbatim>\<open>CheckFilters(slot, entry)\<close>
  that downstream nodes make, each from a node of the graph. Within a slot the entries come
  in ascending order (a later consultation in a slot is never for an earlier entry than
  the bound, which starts at the first entry 0).
\<close>

type_synonym query = "node \<times> slot \<times> entry"

fun consult :: "query list \<Rightarrow> loop_state \<Rightarrow> loop_state" where
  "consult [] s = s"
| "consult ((n, sl, e) # qs) s = consult qs (snd (CheckFilters n sl e s))"

fun ascending :: "(slot \<Rightarrow> entry) \<Rightarrow> query list \<Rightarrow> bool" where
  "ascending B [] = True"
| "ascending B ((n, sl, e) # qs) = (B sl \<le> e \<and> ascending (B(sl := e)) qs)"

text \<open>
  A consultation is well formed for a graph with filter addresses \<open>F\<close> and \<open>nSlots\<close>
  slots. The invariant of a pass: no evaluation is logged twice, a logged evaluation is
  for an entry not after the one its filter checked last, and no filter has checked an
  entry after the bound of its slot.
\<close>

definition query_ok :: "nat set \<Rightarrow> nat \<Rightarrow> query \<Rightarrow> bool" where
  "query_ok F nSlots q = (case q of (n, sl, e) \<Rightarrow> distinct (fids n) \<and> set (fids n) \<subseteq> F \<and> sl < nSlots)"

definition pass_inv :: "nat set \<Rightarrow> nat \<Rightarrow> (slot \<Rightarrow> entry) \<Rightarrow> loop_state \<Rightarrow> bool" where
  "pass_inv F nSlots B s \<longleftrightarrow>
     (\<forall>f sl e. count_list (trace s) (FilterEval f sl e) \<le> 1) \<and>
     (\<forall>f sl e. FilterEval f sl e \<in> set (trace s) \<longrightarrow> f \<in> F \<and> sl < nSlots
          \<and> e \<le> fLastCheckedEntry (filters s f) ! sl) \<and>
     (\<forall>f\<in>F. \<forall>sl<nSlots. fLastCheckedEntry (filters s f) ! sl \<le> B sl \<and> slot_ok s sl f)"

text \<open>
  The state in which a pass starts: no evaluation logged; in every slot of every filter
  nothing checked and both counters zero.
\<close>

definition fresh :: "nat set \<Rightarrow> nat \<Rightarrow> loop_state \<Rightarrow> bool" where
  "fresh F nSlots s \<longleftrightarrow>
     (\<forall>f sl e. FilterEval f sl e \<notin> set (trace s)) \<and>
     (\<forall>f\<in>F. \<forall>sl<nSlots. slot_ok s sl f \<and> fLastCheckedEntry (filters s f) ! sl = -1
         \<and> fAccepted (filters s f) ! sl = 0 \<and> fRejected (filters s f) ! sl = 0)"

text \<open>The slots and entries on which the predicate of a filter was invoked.\<close>

fun evaluated_at :: "nat \<Rightarrow> event list \<Rightarrow> (slot \<times> entry) list" where
  "evaluated_at f [] = []"
| "evaluated_at f (ev # evs) =
     (case ev of
        FilterEval f' sl e \<Rightarrow> (if f' = f then (sl, e) # evaluated_at f evs else evaluated_at f evs)
      | _ \<Rightarrow> evaluated_at f evs)"

text \<open>\<^verbatim>\<open>std::vector::resize(n, v)\<close>: truncate, or append copies of \<open>v\<close>.\<close>

definition resize :: "nat \<Rightarrow> 'a \<Rightarrow> 'a list \<Rightarrow> 'a list" where
  "resize n v xs = take n xs @ replicate (n - length xs) v"

text \<open>
  Modelled from the spec: \<^verbatim>\<open>TDataFrameFilterBase::CreateSlots\<close> is declared in the header
  and defined elsewhere. Per-slot state is allocated for every registered node before the
  iteration; as \<^verbatim>\<open>TDataFrameBranch::CreateSlots\<close> does, the vectors are resized to the
  number of slots, new slots unchecked (\<open>-1\<close>) with zero counters. \<open>loop_start\<close> is the
  state of newly constructed filters after \<^verbatim>\<open>CreateSlots\<close>, with an empty trace.
\<close>

definition TDataFrameFilterBase_CreateSlots :: "nat \<Rightarrow> TDataFrameFilterBase \<Rightarrow> TDataFrameFilterBase" where
  "TDataFrameFilterBase_CreateSlots nSlots fb =
     fb\<lparr>fLastCheckedEntry := resize nSlots (-1) (fLastCheckedEntry fb),
        fLastResult := resize nSlots 0 (fLastResult fb),
        fAccepted := resize nSlots 0 (fAccepted fb),
        fRejected := resize nSlots 0 (fRejected fb)\<rparr>"

definition loop_start :: "nat \<Rightarrow> loop_state" where
  "loop_start nSlots =
     \<lparr>filters = (\<lambda>_. TDataFrameFilterBase_CreateSlots nSlots TDataFrameFilterBase_init), trace = []\<rparr>"

text \<open>
  A small graph used to instantiate the theorems below: the two named filters of a report
  scenario, \<open>even\<close> (\<^verbatim>\<open>x % 2 == 0\<close>) at address 0 and, downstream of it, \<open>big\<close>
  (\<^verbatim>\<open>x > 5\<close>) at address 1, over a column \<open>x\<close> whose value in entry \<open>e\<close> is
  \<open>e + 1\<close>; and a pass in which two slots consult the chain, some entries more than once.
\<close>

definition even_filter :: node where
  "even_filter = Filter 0 (\<lambda>e. (e + 1) mod 2 = 0) Impl"

definition big_filter :: node where
  "big_filter = Filter 1 (\<lambda>e. 5 < e + 1) even_filter"

definition example_pass :: "query list" where
  "example_pass =
     [(big_filter, 0, 0), (big_filter, 1, 5), (even_filter, 1, 5), (big_filter, 0, 1),
      (Branch 2 big_filter, 0, 1), (big_filter, 1, 6), (big_filter, 1, 7), (big_filter, 1, 7)]"

text \<open>
  The conditions on a pass as predicates of their own: every consulted chain consists of
  distinct filter objects of the graph and every slot is one of the \<open>nSlots\<close> created
  (\<open>queries_ok\<close>); the per-slot vectors of the filters of a chain reach the slot
  (\<open>slots_ok\<close>).
\<close>

definition queries_ok :: "nat set \<Rightarrow> nat \<Rightarrow> query list \<Rightarrow> bool" where
  "queries_ok F nSlots qs \<longleftrightarrow> (\<forall>q\<in>set qs. query_ok F nSlots q)"

definition slots_ok :: "node \<Rightarrow> loop_state \<Rightarrow> slot \<Rightarrow> bool" where
  "slots_ok n s sl \<longleftrightarrow> (\<forall>f\<in>set (fids n). slot_ok s sl f)"

text \<open>
  A graph gives every filter address its node; a path is consistent with the graph when
  each filter on it is the node the graph has at its address. The memoised results agree
  with the graph when, for every entry a filter has checked, the stored result is what the
  predicates on its path say, and the predicate of a filter was only ever invoked on
  entries that every filter upstream of it accepts.
\<close>

fun consistent :: "(nat \<Rightarrow> node) \<Rightarrow> node \<Rightarrow> bool" where
  "consistent G Impl = True"
| "consistent G (Branch b prev) = consistent G prev"
| "consistent G (Filter f p prev) = (G f = Filter f p prev \<and> consistent G prev)"

definition graph_ok :: "(nat \<Rightarrow> node) \<Rightarrow> query list \<Rightarrow> bool" where
  "graph_ok G qs \<longleftrightarrow> list_all (\<lambda>(n, sl, e). consistent G n \<and> 0 \<le> e) qs"

definition memo_inv :: "(nat \<Rightarrow> node) \<Rightarrow> nat set \<Rightarrow> nat \<Rightarrow> loop_state \<Rightarrow> bool" where
  "memo_inv G F nSlots s \<longleftrightarrow>
     (\<forall>f\<in>F. \<forall>sl<nSlots. slot_ok s sl f \<and>
        (0 \<le> fLastCheckedEntry (filters s f) ! sl \<longrightarrow>
           (fLastResult (filters s f) ! sl \<noteq> 0) = passes (G f) (fLastCheckedEntry (filters s f) ! sl))) \<and>
     (\<forall>f sl e. FilterEval f sl e \<in> set (trace s) \<longrightarrow>
        (\<exists>p prev. G f = Filter f p prev \<and> passes prev e))"

text \<open>The graph of the example: address 0 is \<open>even\<close>, address 1 is \<open>big\<close>.\<close>

definition example_graph :: "nat \<Rightarrow> node" where
  "example_graph f = (if f = 0 then even_filter else big_filter)"

section \<open>The engine, the booking interface and the result handles\<close>

text \<open>
  Every failure of the interface is a \<^verbatim>\<open>std::runtime_error\<close>; the constructors name
  the throw sites: the \<^verbatim>\<open>TDataFrameImpl\<close> is no longer reachable through the weak
  pointer (\<^verbatim>\<open>GetDataFrameChecked\<close>, \<^verbatim>\<open>TriggerRun\<close>), the default branch list is too
  short (\<^verbatim>\<open>GetDefaultBranchNames\<close>), a 2D or 3D histogram model has no axis limits, the
  type of a branch cannot be guessed (\<^verbatim>\<open>CreateAction\<close>). \<open>UndefinedBehaviour\<close> is not
  an exception: it stands for a step that C++ gives no meaning to (a null pointer
  dereferenced, an index outside its array), after which nothing is known of the program.
\<close>

datatype error =
  EngineGone | InsufficientDefaults | HistogramNeedsAxisLimits | CannotInferType | UndefinedBehaviour

type_synonym BranchNames = "string list"

text \<open>
  A \<^verbatim>\<open>double\<close> is modelled as a real number: values are only stored and copied
  below, which is exact on finite doubles. The two sentinels are
  \<^verbatim>\<open>std::numeric_limits<double>::max()\<close>, the largest finite double, and
  \<^verbatim>\<open>std::numeric_limits<double>::min()\<close>, which for a floating-point type is the smallest
  positive normalised value (not the most negative one).
\<close>

definition numeric_limits_double_max :: real where
  "numeric_limits_double_max = (2 - 1 / 2 ^ 52) * 2 ^ 1023"

definition numeric_limits_double_min :: real where
  "numeric_limits_double_min = 1 / 2 ^ 1022"

text \<open>The objects that result handles share with the operations.\<close>

datatype val = UInt "32 word" | Double real | Object

text \<open>
  Modelled from the spec: the operations of \<^verbatim>\<open>ROOT/TDFOperations.hxx\<close>, which the header
  includes and constructs and which are defined outside it. The table of actions gives
  for \<open>Count\<close> an unsigned counter per slot, merged by sum into the result object; a
  counter counts the entries its slot has executed the action on (scenario S1:
  \<^verbatim>\<open>Filter(x>2).Count()\<close> on the rows 1 to 5 yields 3). For the other operations only
  the address of the result object is kept: for \<open>Min\<close> and \<open>Max\<close> the table gives a
  running minimum or maximum per slot, merged by min or max, and names no value that a
  slot starts from, and the results of the remaining ones (mean, reduce, take, fill, a
  user's \<^verbatim>\<open>Foreach\<close> callable) are not looked into. \<open>Exec\<close> and \<open>Finalize\<close>
  therefore say what a \<open>Count\<close> does and leave every other operation and its result
  object as they are: nothing follows here about the values those actions publish.
\<close>

datatype operation =
    CountOperation nat "32 word list"
  | MinOperation nat
  | MaxOperation nat
  | MeanOperation nat
  | ReduceOperation nat
  | TakeOperation nat
  | FillTOOperation nat
  | FillOperation nat
  | UserCallable

definition CountOperation_new :: "nat \<Rightarrow> nat \<Rightarrow> operation" where
  "CountOperation_new resultPtr nSlots = CountOperation resultPtr (replicate nSlots 0)"

fun Exec :: "operation \<Rightarrow> real \<Rightarrow> slot \<Rightarrow> operation" where
  "Exec (CountOperation r cs) v sl = CountOperation r (cs[sl := cs ! sl + 1])"
| "Exec op v sl = op"

fun Finalize :: "operation \<Rightarrow> (nat \<Rightarrow> val) \<Rightarrow> (nat \<Rightarrow> val)" where
  "Finalize (CountOperation r cs) objs = objs(r := UInt (sum_list cs))"
| "Finalize op objs = objs"

text \<open>
  \<^verbatim>\<open>TDataFrameAction\<close>: the callable (here the operation its lambda forwards to), the
  branches it reads and the previous node.
\<close>

record TDataFrameAction =
  fAction :: operation
  fBranches :: BranchNames
  fPrevData :: node

record TDataFrameImpl =
  fBookedActions :: "TDataFrameAction list"
  fBookedFilters :: "nat list"
  fResProxyReadiness :: "nat list"
  fDefaultBranches :: BranchNames
  fNSlots :: nat
  fHasRunAtLeastOnce :: bool

text \<open>
  The world a program runs in: the \<^verbatim>\<open>TDataFrameImpl\<close> while some shared pointer keeps it
  alive (\<open>None\<close> once it went out of scope, when locking a weak pointer to it fails), the
  heap of shared \<^verbatim>\<open>bool\<close> readiness flags and of result objects with the next free
  address, the state of the filters with the trace of invocations, the lines printed, and
  the input: the value of each branch in each entry, the entries in the order in which
  the tree reader hands them out, each with the slot that processes it, and what
  \<^verbatim>\<open>CreateAction\<close> consults to guess a type. That is the tree found under the tree's
  name in the directory (\<open>None\<close> for a null pointer), as the function from a name to
  what \<^verbatim>\<open>GetBranch\<close> returns for it: \<open>None\<close> for a null pointer, a branch that is
  not a \<^verbatim>\<open>TBranchElement\<close> with its title, or a \<^verbatim>\<open>TBranchElement\<close> with its type
  name. And it is the outcome of \<^verbatim>\<open>GetBookedBranch(name).GetTypeId()\<close> for each name;
  \<^verbatim>\<open>GetBookedBranch\<close> is declared only, so the outcome is a parameter of the world:
  the type of the temporary branch, one of the five that \<^verbatim>\<open>CreateAction\<close> compares
  with or another one, or the failure the call ends in.
\<close>

datatype TBranch = FundamentalBranch string | ElementBranch string

datatype type_id = T_char | T_int | T_double | T_vector_double | T_vector_float | T_other

datatype printed_line = Warning string | FilterStats string "64 word" "64 word"

record world =
  impl :: "TDataFrameImpl option"
  flags :: "nat \<Rightarrow> bool"
  objects :: "nat \<Rightarrow> val"
  next_addr :: nat
  loop :: loop_state
  printed :: "printed_line list"
  branch_value :: "string \<Rightarrow> entry \<Rightarrow> real"
  entries :: "(slot \<times> entry) list"
  tree :: "(string \<Rightarrow> TBranch option) option"
  booked_branch_type :: "string \<Rightarrow> error + type_id"

text \<open>\<^verbatim>\<open>TActionResultProxy\<close>: the addresses of the readiness flag and of the result.\<close>

record TActionResultProxy =
  fReadiness :: nat
  fObjPtr :: nat

text \<open>
  \<^verbatim>\<open>GetDataFrameChecked\<close>: lock the weak pointer to the \<^verbatim>\<open>TDataFrameImpl\<close>, throw when
  it is gone.
\<close>

definition GetDataFrameChecked :: "world \<Rightarrow> error + TDataFrameImpl" where
  "GetDataFrameChecked w = (case impl w of None \<Rightarrow> Inl EngineGone | Some df \<Rightarrow> Inr df)"

definition GetDefaultBranchNames :: "nat \<Rightarrow> world \<Rightarrow> error + BranchNames" where
  "GetDefaultBranchNames nExpectedBranches w =
     (case GetDataFrameChecked w of
        Inl err \<Rightarrow> Inl err
      | Inr df \<Rightarrow>
          (if nExpectedBranches > length (fDefaultBranches df) then Inl InsufficientDefaults
           else Inr (take nExpectedBranches (fDefaultBranches df))))"

text \<open>
  \<^verbatim>\<open>GetBranchNames<T1, T2, T3, T4>\<close>: the template arguments decide how many branches
  are needed (one, plus one for each of \<open>T2\<close>, \<open>T3\<close>, \<open>T4\<close> that is not \<^verbatim>\<open>void\<close>);
  the non-empty names of \<open>bl\<close> are counted.
\<close>

definition neededBranches :: "bool \<Rightarrow> bool \<Rightarrow> bool \<Rightarrow> nat" where
  "neededBranches isT2Void isT3Void isT4Void =
     1 + (if isT2Void then 0 else 1) + (if isT3Void then 0 else 1) + (if isT4Void then 0 else 1)"

definition providedBranches :: "BranchNames \<Rightarrow> nat" where
  "providedBranches bl = length (filter (\<lambda>s. s \<noteq> []) bl)"

definition GetBranchNames :: "bool \<Rightarrow> bool \<Rightarrow> bool \<Rightarrow> BranchNames \<Rightarrow> world \<Rightarrow> error + BranchNames" where
  "GetBranchNames isT2Void isT3Void isT4Void bl w =
     (if neededBranches isT2Void isT3Void isT4Void = providedBranches bl then Inr bl
      else GetDefaultBranchNames (neededBranches isT2Void isT3Void isT4Void) w)"

text \<open>
  Modelled from the spec: \<^verbatim>\<open>PickBranchNames\<close> is declared in the header ("returns local
  BranchNames or default BranchNames according to which one should be used") and defined
  elsewhere. The column-name resolution policy: a list with exactly \<open>nArgs\<close> non-empty
  names is used; otherwise the default list truncated to \<open>nArgs\<close> names, which fails when
  the defaults are shorter.
\<close>

definition PickBranchNames :: "nat \<Rightarrow> BranchNames \<Rightarrow> BranchNames \<Rightarrow> error + BranchNames" where
  "PickBranchNames nArgs bl defBl =
     (if providedBranches bl = nArgs then Inr bl
      else if nArgs > length defBl then Inl InsufficientDefaults
      else Inr (take nArgs defBl))"

text \<open>
  Modelled from the spec: \<^verbatim>\<open>TDataFrameImpl::Book\<close> (three overloads, declared only)
  appends to the respective list of booked nodes.
\<close>

definition Book_action :: "TDataFrameAction \<Rightarrow> world \<Rightarrow> world" where
  "Book_action a w =
     w\<lparr>impl := map_option (\<lambda>df. df\<lparr>fBookedActions := fBookedActions df @ [a]\<rparr>) (impl w)\<rparr>"

definition Book_filter :: "nat \<Rightarrow> world \<Rightarrow> world" where
  "Book_filter f w =
     w\<lparr>impl := map_option (\<lambda>df. df\<lparr>fBookedFilters := fBookedFilters df @ [f]\<rparr>) (impl w)\<rparr>"

text \<open>\<^verbatim>\<open>std::make_shared\<close> of a result object: a fresh address holding the value.\<close>

definition make_shared :: "val \<Rightarrow> world \<Rightarrow> nat \<times> world" where
  "make_shared v w = (next_addr w, w\<lparr>objects := (objects w)(next_addr w := v), next_addr := Suc (next_addr w)\<rparr>)"

text \<open>
  \<^verbatim>\<open>TDataFrameImpl::MakeActionResultProxy\<close>: a new readiness flag, \<^verbatim>\<open>false\<close>, shared
  between the handle and the list \<^verbatim>\<open>fResProxyReadiness\<close>.
\<close>

definition MakeActionResultProxy :: "nat \<Rightarrow> world \<Rightarrow> TActionResultProxy \<times> world" where
  "MakeActionResultProxy r w =
     (\<lparr>fReadiness = next_addr w, fObjPtr = r\<rparr>,
      w\<lparr>flags := (flags w)(next_addr w := False), next_addr := Suc (next_addr w),
        impl := map_option (\<lambda>df. df\<lparr>fResProxyReadiness := fResProxyReadiness df @ [next_addr w]\<rparr>) (impl w)\<rparr>)"

text \<open>
  \<^verbatim>\<open>TDataFrameAction::Run\<close>: check the filters upstream and, when the entry passes,
  execute the action on the value of its first branch in that entry.
\<close>

definition ExecuteAction :: "nat \<Rightarrow> (string \<Rightarrow> entry \<Rightarrow> real) \<Rightarrow> TDataFrameAction \<Rightarrow> slot \<Rightarrow> entry \<Rightarrow> loop_state
    \<Rightarrow> TDataFrameAction \<times> loop_state" where
  "ExecuteAction i bv a sl e s =
     (a\<lparr>fAction := Exec (fAction a) (case fBranches a of [] \<Rightarrow> 0 | b # _ \<Rightarrow> bv b e) sl\<rparr>,
      logEvent (ActionExec i sl e) s)"

definition Action_Run :: "nat \<Rightarrow> (string \<Rightarrow> entry \<Rightarrow> real) \<Rightarrow> TDataFrameAction \<Rightarrow> slot \<Rightarrow> entry \<Rightarrow> loop_state
    \<Rightarrow> TDataFrameAction \<times> loop_state" where
  "Action_Run i bv a sl e s =
     (case CheckFilters (fPrevData a) sl e s of
        (ok, s1) \<Rightarrow> if ok then ExecuteAction i bv a sl e s1 else (a, s1))"

text \<open>
  Modelled from the spec: \<^verbatim>\<open>TDataFrameImpl::Run\<close> and \<^verbatim>\<open>TDataFrameImpl::CreateSlots\<close>
  are declared in the header and defined elsewhere. The run allocates the per-slot state
  of every registered node, iterates over the entries and calls, for each slot and entry,
  the evaluation entry of each booked action in booking order; after the iteration each
  action merges its per-slot partials into the result object and every outstanding result
  handle is set ready. The run is recorded in the trace and in \<^verbatim>\<open>fHasRunAtLeastOnce\<close>.
\<close>

fun run_actions :: "nat \<Rightarrow> (string \<Rightarrow> entry \<Rightarrow> real) \<Rightarrow> TDataFrameAction list \<Rightarrow> slot \<Rightarrow> entry \<Rightarrow> loop_state
    \<Rightarrow> TDataFrameAction list \<times> loop_state" where
  "run_actions i bv [] sl e s = ([], s)"
| "run_actions i bv (a # as) sl e s =
     (case Action_Run i bv a sl e s of
        (a', s1) \<Rightarrow> (case run_actions (Suc i) bv as sl e s1 of (as', s2) \<Rightarrow> (a' # as', s2)))"

fun run_entries :: "(string \<Rightarrow> entry \<Rightarrow> real) \<Rightarrow> (slot \<times> entry) list \<Rightarrow> TDataFrameAction list \<Rightarrow> loop_state
    \<Rightarrow> TDataFrameAction list \<times> loop_state" where
  "run_entries bv [] as s = (as, s)"
| "run_entries bv ((sl, e) # es) as s =
     (case run_actions 0 bv as sl e s of (as', s1) \<Rightarrow> run_entries bv es as' s1)"

definition CreateSlots :: "nat \<Rightarrow> nat list \<Rightarrow> loop_state \<Rightarrow> loop_state" where
  "CreateSlots nSlots fs s =
     s\<lparr>filters := (\<lambda>f. if f \<in> set fs then TDataFrameFilterBase_CreateSlots nSlots (filters s f)
                         else filters s f)\<rparr>"

definition merge_all :: "TDataFrameAction list \<Rightarrow> (nat \<Rightarrow> val) \<Rightarrow> (nat \<Rightarrow> val)" where
  "merge_all as objs = foldl (\<lambda>objs' a. Finalize (fAction a) objs') objs as"

definition Run :: "world \<Rightarrow> world" where
  "Run w =
     (case impl w of
        None \<Rightarrow> w
      | Some df \<Rightarrow>
          (case run_entries (branch_value w) (entries w) (fBookedActions df)
                  (CreateSlots (fNSlots df) (fBookedFilters df) (logEvent RunLoop (loop w))) of
             (as, s) \<Rightarrow>
               w\<lparr>impl := Some (df\<lparr>fBookedActions := as, fHasRunAtLeastOnce := True\<rparr>),
                 loop := s,
                 objects := merge_all as (objects w),
                 flags := (\<lambda>a. if a \<in> set (fResProxyReadiness df) then True else flags w a)\<rparr>))"

text \<open>
  \<^verbatim>\<open>TActionResultProxy::TriggerRun\<close> and \<^verbatim>\<open>TActionResultProxy::Get\<close>.
\<close>

definition TriggerRun :: "world \<Rightarrow> error + world" where
  "TriggerRun w = (case impl w of None \<Rightarrow> Inl EngineGone | Some df \<Rightarrow> Inr (Run w))"

definition Get :: "TActionResultProxy \<Rightarrow> world \<Rightarrow> error + (nat \<times> world)" where
  "Get h w =
     (if \<not> flags w (fReadiness h) then
        (case TriggerRun w of Inl err \<Rightarrow> Inl err | Inr w' \<Rightarrow> Inr (fObjPtr h, w'))
      else Inr (fObjPtr h, w))"

text \<open>
  The lazy actions of \<^verbatim>\<open>TDataFrameInterface\<close>. The node the interface object proxies
  (\<^verbatim>\<open>fProxiedPtr\<close>) is the argument \<open>n\<close>. A template argument that is a branch type is
  modelled by whether it was given (\<open>True\<close>) or left to be guessed
  (\<^verbatim>\<open>TDataFrameGuessedType\<close>).
\<close>

definition Count :: "node \<Rightarrow> world \<Rightarrow> error + (TActionResultProxy \<times> world)" where
  "Count n w =
     (case GetDataFrameChecked w of
        Inl err \<Rightarrow> Inl err
      | Inr df \<Rightarrow>
          (case make_shared (UInt 0) w of
             (cPtr, w1) \<Rightarrow>
               (case MakeActionResultProxy cPtr w1 of
                  (c, w2) \<Rightarrow>
                    Inr (c, Book_action \<lparr>fAction = CountOperation_new cPtr (fNSlots df),
                                          fBranches = [], fPrevData = n\<rparr> w2))))"

definition Reduce :: "string \<Rightarrow> node \<Rightarrow> world \<Rightarrow> error + (TActionResultProxy \<times> world)" where
  "Reduce branchName n w =
     (case GetDataFrameChecked w of
        Inl err \<Rightarrow> Inl err
      | Inr df \<Rightarrow>
          (case GetBranchNames True True True [branchName] w of
             Inl err \<Rightarrow> Inl err
           | Inr bl \<Rightarrow>
               (case make_shared Object w of
                  (redObjPtr, w1) \<Rightarrow>
                    (case MakeActionResultProxy redObjPtr w1 of
                       (redObj, w2) \<Rightarrow>
                         Inr (redObj, Book_action \<lparr>fAction = ReduceOperation redObjPtr,
                                                     fBranches = bl, fPrevData = n\<rparr> w2)))))"

definition Take :: "string \<Rightarrow> node \<Rightarrow> world \<Rightarrow> error + (TActionResultProxy \<times> world)" where
  "Take branchName n w =
     (case GetDataFrameChecked w of
        Inl err \<Rightarrow> Inl err
      | Inr df \<Rightarrow>
          (case GetBranchNames True True True [branchName] w of
             Inl err \<Rightarrow> Inl err
           | Inr bl \<Rightarrow>
               (case make_shared Object w of
                  (valuesPtr, w1) \<Rightarrow>
                    (case MakeActionResultProxy valuesPtr w1 of
                       (values, w2) \<Rightarrow>
                         Inr (values, Book_action \<lparr>fAction = TakeOperation valuesPtr,
                                                     fBranches = bl, fPrevData = n\<rparr> w2)))))"

text \<open>
  \<^verbatim>\<open>BuildAndBook\<close> for the action types \<^verbatim>\<open>Min\<close>, \<^verbatim>\<open>Max\<close>, \<^verbatim>\<open>Mean\<close> and
  \<^verbatim>\<open>Histo1D\<close>: build the operation, book the action, make the result handle.
\<close>

datatype ActionTypes = Histo1D_t bool | Min_t | Max_t | Mean_t

definition BuildAndBook :: "ActionTypes \<Rightarrow> BranchNames \<Rightarrow> nat \<Rightarrow> nat \<Rightarrow> node \<Rightarrow> world
    \<Rightarrow> error + (TActionResultProxy \<times> world)" where
  "BuildAndBook atype bl r nSlots n w =
     (case GetDataFrameChecked w of
        Inl err \<Rightarrow> Inl err
      | Inr df \<Rightarrow>
          Inr (MakeActionResultProxy r
                 (Book_action
                    \<lparr>fAction = (case atype of
                                  Min_t \<Rightarrow> MinOperation r
                                | Max_t \<Rightarrow> MaxOperation r
                                | Mean_t \<Rightarrow> MeanOperation r
                                | Histo1D_t hasAxisLimits \<Rightarrow>
                                    (if hasAxisLimits then FillTOOperation r else FillOperation r)),
                     fBranches = bl, fPrevData = n\<rparr> w)))"

text \<open>
  \<^verbatim>\<open>CreateAction\<close>. With the branch type given by the user, build and book. With the
  type to be guessed, the first name of \<open>bl\<close> is looked up in the tree. Without a branch
  of that name it is a temporary branch: for one of the five types the action is built and
  booked, for any other type control leaves the \<^verbatim>\<open>if\<close> and the null branch pointer
  is dereferenced by \<^verbatim>\<open>branch->GetTitle()\<close>. A branch of the tree that is not a
  \<^verbatim>\<open>TBranchElement\<close> is of a fundamental type, named by the last character of its
  title (read at index \<^verbatim>\<open>strlen(title) - 1\<close>, outside an empty title); a
  \<^verbatim>\<open>TBranchElement\<close> is accepted for two type names. Whatever is left throws.
\<close>

definition CreateAction :: "ActionTypes \<Rightarrow> bool \<Rightarrow> BranchNames \<Rightarrow> nat \<Rightarrow> node \<Rightarrow> world
    \<Rightarrow> error + (TActionResultProxy \<times> world)" where
  "CreateAction atype typed bl r n w =
     (case GetDataFrameChecked w of
        Inl err \<Rightarrow> Inl err
      | Inr df \<Rightarrow>
          (if typed then BuildAndBook atype bl r (fNSlots df) n w
           else
             (case bl of
                [] \<Rightarrow> Inl UndefinedBehaviour
              | theBranchName # _ \<Rightarrow>
                  (case tree w of
                     None \<Rightarrow> Inl UndefinedBehaviour
                   | Some GetBranch \<Rightarrow>
                       (case GetBranch theBranchName of
                          None \<Rightarrow>
                            (case booked_branch_type w theBranchName of
                               Inl err \<Rightarrow> Inl err
                             | Inr type_id \<Rightarrow>
                                 (if type_id = T_char then BuildAndBook atype bl r (fNSlots df) n w
                                  else if type_id = T_int then BuildAndBook atype bl r (fNSlots df) n w
                                  else if type_id = T_double then BuildAndBook atype bl r (fNSlots df) n w
                                  else if type_id = T_vector_double
                                    then BuildAndBook atype bl r (fNSlots df) n w
                                  else if type_id = T_vector_float
                                    then BuildAndBook atype bl r (fNSlots df) n w
                                  else Inl UndefinedBehaviour))
                        | Some (FundamentalBranch title) \<Rightarrow>
                            (if title = [] then Inl UndefinedBehaviour
                             else if last title = CHR ''B'' then BuildAndBook atype bl r (fNSlots df) n w
                             else if last title = CHR ''I'' then BuildAndBook atype bl r (fNSlots df) n w
                             else if last title = CHR ''D'' then BuildAndBook atype bl r (fNSlots df) n w
                             else Inl CannotInferType)
                        | Some (ElementBranch typeName) \<Rightarrow>
                            (if typeName = ''vector<double>''
                               then BuildAndBook atype bl r (fNSlots df) n w
                             else if typeName = ''vector<float>''
                               then BuildAndBook atype bl r (fNSlots df) n w
                             else Inl CannotInferType))))))"

definition Min :: "bool \<Rightarrow> string \<Rightarrow> node \<Rightarrow> world \<Rightarrow> error + (TActionResultProxy \<times> world)" where
  "Min typed branchName n w =
     (case GetBranchNames True True True [branchName] w of
        Inl err \<Rightarrow> Inl err
      | Inr bl \<Rightarrow>
          (case make_shared (Double numeric_limits_double_max) w of
             (minV, w1) \<Rightarrow> CreateAction Min_t typed bl minV n w1))"

definition Max :: "bool \<Rightarrow> string \<Rightarrow> node \<Rightarrow> world \<Rightarrow> error + (TActionResultProxy \<times> world)" where
  "Max typed branchName n w =
     (case GetBranchNames True True True [branchName] w of
        Inl err \<Rightarrow> Inl err
      | Inr bl \<Rightarrow>
          (case make_shared (Double numeric_limits_double_min) w of
             (maxV, w1) \<Rightarrow> CreateAction Max_t typed bl maxV n w1))"

definition Mean :: "bool \<Rightarrow> string \<Rightarrow> node \<Rightarrow> world \<Rightarrow> error + (TActionResultProxy \<times> world)" where
  "Mean typed branchName n w =
     (case GetBranchNames True True True [branchName] w of
        Inl err \<Rightarrow> Inl err
      | Inr bl \<Rightarrow>
          (case make_shared (Double 0) w of
             (meanV, w1) \<Rightarrow> CreateAction Mean_t typed bl meanV n w1))"

text \<open>
  \<^verbatim>\<open>Histo1D\<close> with a model histogram (\<open>hasAxisLimits\<close> is what
  \<^verbatim>\<open>HasAxisLimits\<close> says of the model) and \<^verbatim>\<open>Histo1DImpl\<close>; \<open>weighted\<close> is whether
  the template argument \<open>W\<close> is not \<^verbatim>\<open>void\<close>.
\<close>

definition Histo1DImpl :: "bool \<Rightarrow> bool \<Rightarrow> bool \<Rightarrow> BranchNames \<Rightarrow> nat \<Rightarrow> node \<Rightarrow> world
    \<Rightarrow> error + (TActionResultProxy \<times> world)" where
  "Histo1DImpl typed weighted hasAxisLimits bl h n w =
     (if \<not> weighted then CreateAction (Histo1D_t hasAxisLimits) typed bl h n w
      else
        (case GetDataFrameChecked w of
           Inl err \<Rightarrow> Inl err
         | Inr df \<Rightarrow>
             Inr (MakeActionResultProxy h
                    (Book_action
                       \<lparr>fAction = (if hasAxisLimits then FillTOOperation h else FillOperation h),
                        fBranches = bl, fPrevData = n\<rparr> w))))"

definition Histo1D :: "bool \<Rightarrow> bool \<Rightarrow> bool \<Rightarrow> string \<Rightarrow> string \<Rightarrow> node \<Rightarrow> world
    \<Rightarrow> error + (TActionResultProxy \<times> world)" where
  "Histo1D typed weighted hasAxisLimits valBranchName weightBranchName n w =
     (case GetBranchNames (\<not> weighted) True True [valBranchName, weightBranchName] w of
        Inl err \<Rightarrow> Inl err
      | Inr bl \<Rightarrow>
          (case make_shared Object w of
             (h, w1) \<Rightarrow> Histo1DImpl typed weighted hasAxisLimits bl h n w1))"

text \<open>\<^verbatim>\<open>Histo2D\<close> and \<^verbatim>\<open>Histo3D\<close>, without and with a weight branch.\<close>

definition Histo2D :: "bool \<Rightarrow> bool \<Rightarrow> string \<Rightarrow> string \<Rightarrow> string \<Rightarrow> node \<Rightarrow> world
    \<Rightarrow> error + (TActionResultProxy \<times> world)" where
  "Histo2D weighted hasAxisLimits b0BranchName b1BranchName wBranchName n w =
     (case make_shared Object w of
        (h, w1) \<Rightarrow>
          (if \<not> hasAxisLimits then Inl HistogramNeedsAxisLimits
           else
             (case GetBranchNames False (\<not> weighted) True
                     (if weighted then [b0BranchName, b1BranchName, wBranchName]
                      else [b0BranchName, b1BranchName]) w1 of
                Inl err \<Rightarrow> Inl err
              | Inr bl \<Rightarrow>
                  (case GetDataFrameChecked w1 of
                     Inl err \<Rightarrow> Inl err
                   | Inr df \<Rightarrow>
                       Inr (MakeActionResultProxy h
                              (Book_action \<lparr>fAction = FillTOOperation h, fBranches = bl, fPrevData = n\<rparr> w1))))))"

definition Histo3D :: "bool \<Rightarrow> bool \<Rightarrow> string \<Rightarrow> string \<Rightarrow> string \<Rightarrow> string \<Rightarrow> node \<Rightarrow> world
    \<Rightarrow> error + (TActionResultProxy \<times> world)" where
  "Histo3D weighted hasAxisLimits b0BranchName b1BranchName b2BranchName wBranchName n w =
     (case make_shared Object w of
        (h, w1) \<Rightarrow>
          (if \<not> hasAxisLimits then Inl HistogramNeedsAxisLimits
           else
             (case GetBranchNames False False (\<not> weighted)
                     [b0BranchName, b1BranchName, b2BranchName, wBranchName] w1 of
                Inl err \<Rightarrow> Inl err
              | Inr bl \<Rightarrow>
                  (case GetDataFrameChecked w1 of
                     Inl err \<Rightarrow> Inl err
                   | Inr df \<Rightarrow>
                       Inr (MakeActionResultProxy h
                              (Book_action \<lparr>fAction = FillTOOperation h, fBranches = bl, fPrevData = n\<rparr> w1))))))"

text \<open>
  \<^verbatim>\<open>Filter\<close>: a new filter object, booked, and the interface object that proxies it.
  \<open>nArgs\<close> is the number of arguments of the callable.
\<close>

definition Filter_node :: "(entry \<Rightarrow> bool) \<Rightarrow> nat \<Rightarrow> BranchNames \<Rightarrow> string \<Rightarrow> node \<Rightarrow> world
    \<Rightarrow> error + (node \<times> world)" where
  "Filter_node f nArgs bl name n w =
     (case GetDataFrameChecked w of
        Inl err \<Rightarrow> Inl err
      | Inr df \<Rightarrow>
          (case PickBranchNames nArgs bl (fDefaultBranches df) of
             Inl err \<Rightarrow> Inl err
           | Inr actualBl \<Rightarrow>
               Inr (Filter (next_addr w) f n,
                    Book_filter (next_addr w)
                      (w\<lparr>loop := (loop w)\<lparr>filters := (filters (loop w))
                                 (next_addr w := TDataFrameFilterBase_init\<lparr>fName := name\<rparr>)\<rparr>,
                         next_addr := Suc (next_addr w)\<rparr>))))"

text \<open>
  The instant actions: \<^verbatim>\<open>ForeachSlot\<close> books the action and runs the loop;
  \<^verbatim>\<open>Foreach\<close> adds the slot parameter to the callable and calls \<^verbatim>\<open>ForeachSlot\<close>.
\<close>

definition ForeachSlot :: "nat \<Rightarrow> BranchNames \<Rightarrow> node \<Rightarrow> world \<Rightarrow> error + world" where
  "ForeachSlot nArgs bl n w =
     (case GetDataFrameChecked w of
        Inl err \<Rightarrow> Inl err
      | Inr df \<Rightarrow>
          (case PickBranchNames (nArgs - 1) bl (fDefaultBranches df) of
             Inl err \<Rightarrow> Inl err
           | Inr actualBl \<Rightarrow>
               Inr (Run (Book_action \<lparr>fAction = UserCallable, fBranches = actualBl, fPrevData = n\<rparr> w))))"

definition Foreach :: "nat \<Rightarrow> BranchNames \<Rightarrow> node \<Rightarrow> world \<Rightarrow> error + world" where
  "Foreach nArgs bl n w = ForeachSlot (Suc nArgs) bl n w"

text \<open>
  \<^verbatim>\<open>Report\<close> of the interface, and the \<^verbatim>\<open>Report\<close> and \<^verbatim>\<open>PartialReport\<close> of the nodes.

  Modelled from the spec: \<^verbatim>\<open>TDataFrameFilterBase::PrintReport\<close> and
  \<^verbatim>\<open>TDataFrameImpl::Report\<close> are declared only. A named filter prints its statistics, the
  entries accepted and the entries seen, summed over the slots; the root prints all named
  filters in booking order.
\<close>

definition PrintReport :: "nat \<Rightarrow> world \<Rightarrow> world" where
  "PrintReport f w =
     (if fName (filters (loop w) f) = [] then w
      else w\<lparr>printed := printed w @
                 [FilterStats (fName (filters (loop w) f))
                    (sum_list (fAccepted (filters (loop w) f)))
                    (sum_list (fAccepted (filters (loop w) f)) + sum_list (fRejected (filters (loop w) f)))]\<rparr>)"

fun PartialReport :: "node \<Rightarrow> world \<Rightarrow> world" where
  "PartialReport Impl w = w"
| "PartialReport (Branch b prev) w = PartialReport prev w"
| "PartialReport (Filter f p prev) w = PrintReport f (PartialReport prev w)"

fun node_Report :: "node \<Rightarrow> world \<Rightarrow> world" where
  "node_Report Impl w =
     (case impl w of None \<Rightarrow> w | Some df \<Rightarrow> foldl (\<lambda>w' f. PrintReport f w') w (fBookedFilters df))"
| "node_Report (Branch b prev) w = PartialReport prev w"
| "node_Report (Filter f p prev) w = PartialReport (Filter f p prev) w"

definition Report :: "node \<Rightarrow> world \<Rightarrow> error + world" where
  "Report n w =
     (case GetDataFrameChecked w of
        Inl err \<Rightarrow> Inl err
      | Inr df \<Rightarrow>
          (if \<not> fHasRunAtLeastOnce df then
             Inr (w\<lparr>printed := printed w @
                  [Warning ''Warning: the event-loop has not been run yet, all reports are empty'']\<rparr>)
           else Inr (node_Report n w)))"

text \<open>
  A \<^verbatim>\<open>TDataFrame\<close> on a tree, just constructed: nothing booked, nothing run. The
  constructors are declared only; the members without a default initialiser are the
  default branches (a constructor argument) and the number of slots (what
  \<^verbatim>\<open>GetNSlots\<close> returns), both parameters here, as are the tree's contents, its
  branches and the types of the temporary branches.
\<close>

definition TDataFrame_new :: "BranchNames \<Rightarrow> nat \<Rightarrow> (string \<Rightarrow> entry \<Rightarrow> real) \<Rightarrow> (slot \<times> entry) list
    \<Rightarrow> (string \<Rightarrow> TBranch option) option \<Rightarrow> (string \<Rightarrow> error + type_id) \<Rightarrow> world" where
  "TDataFrame_new defaultBranches nSlots bv es tr bbt =
     \<lparr>impl = Some \<lparr>fBookedActions = [], fBookedFilters = [], fResProxyReadiness = [],
                    fDefaultBranches = defaultBranches, fNSlots = nSlots, fHasRunAtLeastOnce = False\<rparr>,
      flags = (\<lambda>_. False), objects = (\<lambda>_. Object), next_addr = 0,
      loop = \<lparr>filters = (\<lambda>_. TDataFrameFilterBase_init), trace = []\<rparr>,
      printed = [], branch_value = bv, entries = es, tree = tr, booked_branch_type = bbt\<rparr>"

text \<open>
  The branches of the tree of the scenarios: one branch \<open>x\<close> of doubles (title
  \<^verbatim>\<open>x/D\<close>). There are no temporary branches, and none is asked for.
\<close>

definition x_branch :: "string \<Rightarrow> TBranch option" where
  "x_branch name = (if name = ''x'' then Some (FundamentalBranch ''x/D'') else None)"

text \<open>
  A first scenario: a column \<open>x\<close> with the values 1 to 5, read by one slot;
  \<^verbatim>\<open>Filter(x > 2).Count()\<close> is booked on it.
\<close>

definition count_scenario :: "error + (TActionResultProxy \<times> world)" where
  "count_scenario =
     (case Filter_node (\<lambda>e. 2 < e + 1) 1 [''x''] [] Impl
             (TDataFrame_new [''x''] 1 (\<lambda>b e. real_of_int (e + 1))
                [(0, 0), (0, 1), (0, 2), (0, 3), (0, 4)] (Some x_branch) (\<lambda>_. Inr T_other)) of
        Inl err \<Rightarrow> Inl err
      | Inr (n, w) \<Rightarrow> Count n w)"

subsection \<open>Programs that only book\<close>

text \<open>
  The lazy actions with their arguments, the booking of one of them on a node, and the
  booking of a sequence of them. \<open>booked_only\<close> says what a booking call may have done
  and nothing more: one action and one readiness flag, still unset, were appended; the
  filters, the trace, the output and \<^verbatim>\<open>fHasRunAtLeastOnce\<close> are as before.
\<close>

datatype lazy_action =
    Count_a
  | Reduce_a string
  | Take_a string
  | Min_a bool string
  | Max_a bool string
  | Mean_a bool string
  | Histo1D_a bool bool bool string string
  | Histo2D_a bool bool string string string
  | Histo3D_a bool bool string string string string

fun book :: "lazy_action \<Rightarrow> node \<Rightarrow> world \<Rightarrow> error + (TActionResultProxy \<times> world)" where
  "book Count_a n w = Count n w"
| "book (Reduce_a b) n w = Reduce b n w"
| "book (Take_a b) n w = Take b n w"
| "book (Min_a typed b) n w = Min typed b n w"
| "book (Max_a typed b) n w = Max typed b n w"
| "book (Mean_a typed b) n w = Mean typed b n w"
| "book (Histo1D_a typed weighted hasLim v wt) n w = Histo1D typed weighted hasLim v wt n w"
| "book (Histo2D_a weighted hasLim b0 b1 wt) n w = Histo2D weighted hasLim b0 b1 wt n w"
| "book (Histo3D_a weighted hasLim b0 b1 b2 wt) n w = Histo3D weighted hasLim b0 b1 b2 wt n w"

fun book_all :: "(lazy_action \<times> node) list \<Rightarrow> world \<Rightarrow> error + world" where
  "book_all [] w = Inr w"
| "book_all ((a, n) # bs) w =
     (case book a n w of Inl err \<Rightarrow> Inl err | Inr (h, w') \<Rightarrow> book_all bs w')"

definition booked_only :: "TActionResultProxy \<Rightarrow> world \<Rightarrow> world \<Rightarrow> bool" where
  "booked_only h w w' \<longleftrightarrow>
     loop w' = loop w \<and> printed w' = printed w \<and> \<not> flags w' (fReadiness h) \<and>
     (\<exists>df df' act. impl w = Some df \<and> impl w' = Some df' \<and>
        fBookedActions df' = fBookedActions df @ [act] \<and>
        fResProxyReadiness df' = fResProxyReadiness df @ [fReadiness h] \<and>
        fBookedFilters df' = fBookedFilters df \<and>
        fHasRunAtLeastOnce df' = fHasRunAtLeastOnce df)"

text \<open>The tree of the first scenario, with nothing booked yet.\<close>

definition example_tree :: world where
  "example_tree =
     TDataFrame_new [''x''] 1 (\<lambda>b e. real_of_int (e + 1))
       [(0, 0), (0, 1), (0, 2), (0, 3), (0, 4)] (Some x_branch) (\<lambda>_. Inr T_other)"

section \<open>Temporary branches: cached values\<close>

text \<open>
  The per-slot members of \<^verbatim>\<open>TDataFrameBranch\<close>: \<^verbatim>\<open>fLastCheckedEntry\<close> and the shared
  pointers \<^verbatim>\<open>fLastResultPtr\<close> (an address, or \<open>None\<close> for an empty pointer). The
  default member initialisers give one unchecked slot and no result pointer;
  \<^verbatim>\<open>CreateSlots\<close> resizes both.
\<close>

record TDataFrameBranch =
  fLastCheckedEntry_Branch :: "int list"
  fLastResultPtr :: "nat option list"

definition TDataFrameBranch_init :: TDataFrameBranch where
  "TDataFrameBranch_init = \<lparr>fLastCheckedEntry_Branch = [-1], fLastResultPtr = []\<rparr>"

definition TDataFrameBranch_CreateSlots :: "nat \<Rightarrow> TDataFrameBranch \<Rightarrow> TDataFrameBranch" where
  "TDataFrameBranch_CreateSlots nSlots br =
     br\<lparr>fLastCheckedEntry_Branch := resize nSlots (-1) (fLastCheckedEntry_Branch br),
        fLastResultPtr := resize nSlots None (fLastResultPtr br)\<rparr>"

text \<open>
  The branch objects by address, the heap of the values that the shared pointers own
  (\<open>None\<close>: no object at that address) with the next free address, and the trace of
  evaluations of expressions.
\<close>

record 'v branch_state =
  tmp_branches :: "nat \<Rightarrow> TDataFrameBranch"
  heap :: "nat \<Rightarrow> 'v option"
  next_value :: nat
  btrace :: "event list"

text \<open>
  \<^verbatim>\<open>GetValueHelper\<close>: evaluate the expression on the column values of the entry (the
  expression is given as a function of the entry) and \<^verbatim>\<open>make_shared\<close> the result.
\<close>

definition GetValueHelper :: "nat \<Rightarrow> (entry \<Rightarrow> 'v) \<Rightarrow> slot \<Rightarrow> entry \<Rightarrow> 'v branch_state
    \<Rightarrow> nat \<times> 'v branch_state" where
  "GetValueHelper b fExpression sl e s =
     (next_value s,
      s\<lparr>heap := (heap s)(next_value s \<mapsto> fExpression e), next_value := Suc (next_value s),
        btrace := btrace s @ [BranchEval b sl e]\<rparr>)"

text \<open>
  Assigning the new pointer to \<^verbatim>\<open>fLastResultPtr[slot]\<close> releases the object the slot
  owned before: the vector holds the only shared pointer to it.
\<close>

definition assignLastResultPtr :: "nat \<Rightarrow> slot \<Rightarrow> nat \<Rightarrow> 'v branch_state \<Rightarrow> 'v branch_state" where
  "assignLastResultPtr b sl p s =
     s\<lparr>tmp_branches := (tmp_branches s)
          (b := (tmp_branches s b)\<lparr>fLastResultPtr := (fLastResultPtr (tmp_branches s b))[sl := Some p]\<rparr>),
       heap := (case fLastResultPtr (tmp_branches s b) ! sl of
                  None \<Rightarrow> heap s
                | Some old \<Rightarrow> (heap s)(old := None))\<rparr>"

definition setLastCheckedEntry_Branch :: "nat \<Rightarrow> slot \<Rightarrow> entry \<Rightarrow> 'v branch_state \<Rightarrow> 'v branch_state" where
  "setLastCheckedEntry_Branch b sl e s =
     s\<lparr>tmp_branches := (tmp_branches s)
          (b := (tmp_branches s b)\<lparr>fLastCheckedEntry_Branch :=
                  (fLastCheckedEntry_Branch (tmp_branches s b))[sl := e]\<rparr>)\<rparr>"

text \<open>\<^verbatim>\<open>TDataFrameBranch::GetValue\<close>; the result is the raw pointer handed to the caller.\<close>

definition GetValue :: "nat \<Rightarrow> (entry \<Rightarrow> 'v) \<Rightarrow> slot \<Rightarrow> entry \<Rightarrow> 'v branch_state
    \<Rightarrow> nat option \<times> 'v branch_state" where
  "GetValue b fExpression sl e s =
     (if e \<noteq> fLastCheckedEntry_Branch (tmp_branches s b) ! sl then
        (case GetValueHelper b fExpression sl e s of
           (newValuePtr, s1) \<Rightarrow>
             (let s2 = assignLastResultPtr b sl newValuePtr s1;
                  s3 = setLastCheckedEntry_Branch b sl e s2
              in (fLastResultPtr (tmp_branches s3 b) ! sl, s3)))
      else (fLastResultPtr (tmp_branches s b) ! sl, s))"

text \<open>
  A pass over temporary branches: the consumers' requests, each for a branch, a slot and an
  entry, served in order; the expressions of the branches are given by address.
\<close>

type_synonym request = "nat \<times> slot \<times> entry"

fun GetValues :: "(nat \<Rightarrow> entry \<Rightarrow> 'v) \<Rightarrow> request list \<Rightarrow> 'v branch_state
    \<Rightarrow> nat option list \<times> 'v branch_state" where
  "GetValues ex [] s = ([], s)"
| "GetValues ex ((b, sl, e) # qs) s =
     (case GetValue b (ex b) sl e s of
        (p, s1) \<Rightarrow> (case GetValues ex qs s1 of (ps, s2) \<Rightarrow> (p # ps, s2)))"

fun ascending_requests :: "(slot \<Rightarrow> entry) \<Rightarrow> request list \<Rightarrow> bool" where
  "ascending_requests B [] = True"
| "ascending_requests B ((b, sl, e) # qs) = (B sl \<le> e \<and> ascending_requests (B(sl := e)) qs)"

definition requests_ok :: "nat \<Rightarrow> request list \<Rightarrow> bool" where
  "requests_ok nSlots qs \<longleftrightarrow> list_all (\<lambda>(b, sl, e). sl < nSlots) qs"

definition branches_start :: "nat \<Rightarrow> 'v branch_state" where
  "branches_start nSlots =
     \<lparr>tmp_branches = (\<lambda>_. TDataFrameBranch_CreateSlots nSlots TDataFrameBranch_init),
      heap = (\<lambda>_. None), next_value = 0, btrace = []\<rparr>"

definition branch_inv :: "nat \<Rightarrow> (slot \<Rightarrow> entry) \<Rightarrow> 'v branch_state \<Rightarrow> bool" where
  "branch_inv nSlots B s \<longleftrightarrow>
     (\<forall>b sl e. count_list (btrace s) (BranchEval b sl e) \<le> 1) \<and>
     (\<forall>b sl e. BranchEval b sl e \<in> set (btrace s) \<longrightarrow>
         sl < nSlots \<and> e \<le> fLastCheckedEntry_Branch (tmp_branches s b) ! sl) \<and>
     (\<forall>b. \<forall>sl<nSlots.
         fLastCheckedEntry_Branch (tmp_branches s b) ! sl \<le> B sl \<and>
         sl < length (fLastCheckedEntry_Branch (tmp_branches s b)) \<and>
         sl < length (fLastResultPtr (tmp_branches s b)) \<and>
         (0 \<le> fLastCheckedEntry_Branch (tmp_branches s b) ! sl \<longrightarrow>
            fLastResultPtr (tmp_branches s b) ! sl \<noteq> None)) \<and>
     (\<forall>sl. 0 \<le> B sl)"

text \<open>Requests of several consumers to two temporary branches, in two slots.\<close>

definition example_requests :: "request list" where
  "example_requests = [(0, 0, 0), (0, 0, 0), (1, 0, 0), (0, 1, 4), (0, 0, 1), (1, 0, 1), (0, 0, 1)]"

section \<open>Properties\<close>

subsection \<open>One call of the filter check\<close>

lemmas upd_defs = setLastResult_def setLastCheckedEntry_def incAccepted_def incRejected_def
  logEvent_def evaluateFilter_def bool_to_int_def Let_def

lemma CF_other: "CheckFilters n sl e s = (b, s') \<Longrightarrow> f \<notin> set (fids n) \<Longrightarrow> filters s' f = filters s f"
  by (induction n arbitrary: s b s') (auto simp: upd_defs split: prod.splits if_splits)

lemma CF_len:
  "CheckFilters n sl e s = (b, s') \<Longrightarrow>
   length (fLastCheckedEntry (filters s' f)) = length (fLastCheckedEntry (filters s f))
   \<and> length (fLastResult (filters s' f)) = length (fLastResult (filters s f))
   \<and> length (fAccepted (filters s' f)) = length (fAccepted (filters s f))
   \<and> length (fRejected (filters s' f)) = length (fRejected (filters s f))"
  by (induction n arbitrary: s b s') (auto simp: upd_defs split: prod.splits if_splits)

lemma CF_slot_ok: "CheckFilters n sl e s = (b, s') \<Longrightarrow> slot_ok s' sl' f = slot_ok s sl' f"
  by (simp add: slot_ok_def CF_len)

lemma evaluated_append: "evaluated f sl (xs @ ys) = evaluated f sl xs @ evaluated f sl ys"
  by (induction xs) (auto split: event.splits)

lemma CF_last:
  "CheckFilters n sl e s = (b, s') \<Longrightarrow>
   fLastCheckedEntry (filters s' f) ! sl' = fLastCheckedEntry (filters s f) ! sl'
   \<or> (sl' = sl \<and> fLastCheckedEntry (filters s' f) ! sl' = e)"
proof (induction n arbitrary: s b s')
  case Impl
  then show ?case by simp
next
  case (Branch x prev)
  then show ?case by simp
next
  case (Filter g p prev)
  show ?case
  proof (cases "e \<noteq> fLastCheckedEntry (filters s g) ! sl")
    case False
    with Filter.prems show ?thesis by simp
  next
    case True
    obtain ok s1 where c: "CheckFilters prev sl e s = (ok, s1)" by (cases "CheckFilters prev sl e s")
    from Filter.IH[OF c] have ih: "fLastCheckedEntry (filters s1 f) ! sl' = fLastCheckedEntry (filters s f) ! sl'
       \<or> (sl' = sl \<and> fLastCheckedEntry (filters s1 f) ! sl' = e)" .
    from Filter.prems True c
    have s': "s' = setLastCheckedEntry g sl e (if \<not> ok then setLastResult g sl (bool_to_int False) s1 else evaluateFilter g p sl e s1)"
      by (simp add: Let_def)
    show ?thesis using ih unfolding s'
      by (cases "f = g"; cases "sl' = sl"; cases "sl < length (fLastCheckedEntry (filters s1 g))")
         (auto simp: upd_defs list_update_beyond)
  qed
qed

lemma CF_miss:
  assumes "e \<noteq> fLastCheckedEntry (filters s g) ! sl" "CheckFilters prev sl e s = (ok, s1)"
  shows "snd (CheckFilters (Filter g p prev) sl e s) =
           setLastCheckedEntry g sl e (if \<not> ok then setLastResult g sl (bool_to_int False) s1
                                      else evaluateFilter g p sl e s1)"
  using assms by (simp add: Let_def)

lemma CF_step:
  "CheckFilters n sl e s = (b, s') \<Longrightarrow> distinct (fids n) \<Longrightarrow> (\<forall>f\<in>set (fids n). slot_ok s sl f) \<Longrightarrow>
   \<exists>evs. trace s' = trace s @ evs \<and> distinct evs \<and>
     (\<forall>ev\<in>set evs. \<exists>f\<in>set (fids n). ev = FilterEval f sl e
         \<and> fLastCheckedEntry (filters s f) ! sl \<noteq> e \<and> fLastCheckedEntry (filters s' f) ! sl = e)"
proof (induction n arbitrary: s b s')
  case Impl
  then show ?case by simp
next
  case (Branch x prev)
  then show ?case by simp
next
  case (Filter g p prev)
  show ?case
  proof (cases "e \<noteq> fLastCheckedEntry (filters s g) ! sl")
    case False
    with Filter.prems show ?thesis by simp
  next
    case True
    obtain ok s1 where c: "CheckFilters prev sl e s = (ok, s1)" by (cases "CheckFilters prev sl e s")
    have d: "distinct (fids prev)" and g: "g \<notin> set (fids prev)" using Filter.prems(2) by auto
    have r: "\<forall>f\<in>set (fids prev). slot_ok s sl f" using Filter.prems(3) by auto
    from Filter.IH[OF c d r] obtain evs where
      evs: "trace s1 = trace s @ evs" "distinct evs"
        "\<forall>ev\<in>set evs. \<exists>f\<in>set (fids prev). ev = FilterEval f sl e
         \<and> fLastCheckedEntry (filters s f) ! sl \<noteq> e \<and> fLastCheckedEntry (filters s1 f) ! sl = e"
      by blast
    have s': "s' = setLastCheckedEntry g sl e (if \<not> ok then setLastResult g sl (bool_to_int False) s1 else evaluateFilter g p sl e s1)"
      using CF_miss[OF True c, of p] Filter.prems(1) by simp
    have gs: "filters s1 g = filters s g" using CF_other[OF c g] .
    have ok_g: "sl < length (fLastCheckedEntry (filters s1 g))"
      using Filter.prems(3) gs by (simp add: slot_ok_def)
    have lc: "fLastCheckedEntry (filters s' g) ! sl = e"
      unfolding s' using ok_g by (auto simp: upd_defs)
    have oth: "\<And>f. f \<noteq> g \<Longrightarrow> filters s' f = filters s1 f"
      unfolding s' by (auto simp: upd_defs)
    have notin: "FilterEval g sl e \<notin> set evs" using evs(3) g by auto
    show ?thesis
    proof (cases ok)
      case False
      then have "trace s' = trace s @ evs" unfolding s' using evs(1) by (simp add: upd_defs)
      moreover have "\<forall>ev\<in>set evs. \<exists>f\<in>set (fids (Filter g p prev)). ev = FilterEval f sl e
         \<and> fLastCheckedEntry (filters s f) ! sl \<noteq> e \<and> fLastCheckedEntry (filters s' f) ! sl = e"
        using evs(3) g oth by (metis fids.simps(3) list.set_intros(2))
      ultimately show ?thesis using evs(2) by blast
    next
      case ok: True
      then have "trace s' = trace s @ (evs @ [FilterEval g sl e])" unfolding s' using evs(1) by (simp add: upd_defs)
      moreover have "distinct (evs @ [FilterEval g sl e])" using evs(2) notin by simp
      moreover have "\<forall>ev\<in>set (evs @ [FilterEval g sl e]). \<exists>f\<in>set (fids (Filter g p prev)). ev = FilterEval f sl e
         \<and> fLastCheckedEntry (filters s f) ! sl \<noteq> e \<and> fLastCheckedEntry (filters s' f) ! sl = e"
      proof
        fix ev assume "ev \<in> set (evs @ [FilterEval g sl e])"
        then consider "ev \<in> set evs" | "ev = FilterEval g sl e" by auto
        then show "\<exists>f\<in>set (fids (Filter g p prev)). ev = FilterEval f sl e
         \<and> fLastCheckedEntry (filters s f) ! sl \<noteq> e \<and> fLastCheckedEntry (filters s' f) ! sl = e"
        proof cases
          case 1
          then show ?thesis using evs(3) g oth by (metis fids.simps(3) list.set_intros(2))
        next
          case 2
          then show ?thesis using True lc by auto
        qed
      qed
      ultimately show ?thesis by blast
    qed
  qed
qed

lemma CF_count:
  "CheckFilters n sl e s = (b, s') \<Longrightarrow> distinct (fids n) \<Longrightarrow> (\<forall>f\<in>set (fids n). slot_ok s sl f) \<Longrightarrow>
   fAccepted (filters s' f) ! sl' + fRejected (filters s' f) ! sl' + of_nat (length (evaluated f sl' (trace s)))
   = fAccepted (filters s f) ! sl' + fRejected (filters s f) ! sl' + of_nat (length (evaluated f sl' (trace s')))"
proof (induction n arbitrary: s b s')
  case Impl
  then show ?case by simp
next
  case (Branch x prev)
  then show ?case by simp
next
  case (Filter g p prev)
  show ?case
  proof (cases "e \<noteq> fLastCheckedEntry (filters s g) ! sl")
    case False
    with Filter.prems show ?thesis by simp
  next
    case True
    obtain ok s1 where c: "CheckFilters prev sl e s = (ok, s1)" by (cases "CheckFilters prev sl e s")
    have d: "distinct (fids prev)" and g: "g \<notin> set (fids prev)" using Filter.prems(2) by auto
    have r: "\<forall>f\<in>set (fids prev). slot_ok s sl f" using Filter.prems(3) by auto
    note ih = Filter.IH[OF c d r]
    have s': "s' = setLastCheckedEntry g sl e (if \<not> ok then setLastResult g sl (bool_to_int False) s1 else evaluateFilter g p sl e s1)"
      using CF_miss[OF True c, of p] Filter.prems(1) by simp
    have gs: "filters s1 g = filters s g" using CF_other[OF c g] .
    have ok_g: "sl < length (fAccepted (filters s1 g))" "sl < length (fRejected (filters s1 g))"
      using Filter.prems(3) gs by (simp_all add: slot_ok_def)
    show ?thesis
    proof (cases ok)
      case False
      then have "fAccepted (filters s' f) = fAccepted (filters s1 f)" "fRejected (filters s' f) = fRejected (filters s1 f)"
        "trace s' = trace s1" unfolding s' by (auto simp: upd_defs)
      then show ?thesis using ih by simp
    next
      case ok: True
      have tr: "trace s' = trace s1 @ [FilterEval g sl e]" unfolding s' using ok by (simp add: upd_defs)
      show ?thesis
      proof (cases "f = g \<and> sl' = sl")
        case False
        then have "fAccepted (filters s' f) ! sl' = fAccepted (filters s1 f) ! sl'"
          "fRejected (filters s' f) ! sl' = fRejected (filters s1 f) ! sl'"
          unfolding s' using ok by (auto simp: upd_defs)
        moreover have "evaluated f sl' (trace s') = evaluated f sl' (trace s1)"
          using False tr by (auto simp: evaluated_append)
        ultimately show ?thesis using ih by simp
      next
        case fg: True
        have "fAccepted (filters s' f) ! sl' + fRejected (filters s' f) ! sl'
              = fAccepted (filters s1 f) ! sl' + fRejected (filters s1 f) ! sl' + 1"
          unfolding s' using ok fg ok_g by (auto simp: upd_defs)
        moreover have "length (evaluated f sl' (trace s')) = Suc (length (evaluated f sl' (trace s1)))"
          using fg tr by (auto simp: evaluated_append)
        ultimately show ?thesis using ih by (simp add: algebra_simps)
      qed
    qed
  qed
qed

lemma distinct_count_le1: "distinct xs \<Longrightarrow> count_list xs x \<le> 1"
  by (induction xs) (auto simp: count_list_0_iff)

lemma count_le1_distinct: "(\<forall>x. count_list xs x \<le> 1) \<Longrightarrow> distinct xs"
proof (induction xs)
  case Nil
  then show ?case by simp
next
  case (Cons a xs)
  have "count_list (a # xs) a \<le> 1" using Cons.prems by blast
  then have "a \<notin> set xs" by (simp add: count_list_0_iff)
  moreover have "\<forall>x. count_list xs x \<le> 1"
  proof
    fix x
    have "count_list xs x \<le> count_list (a # xs) x" by simp
    also have "\<dots> \<le> 1" using Cons.prems by blast
    finally show "count_list xs x \<le> 1" .
  qed
  ultimately show ?case using Cons.IH by simp
qed

lemma count_evaluated: "count_list (evaluated f sl tr) e = count_list tr (FilterEval f sl e)"
  by (induction tr) (auto split: event.splits)

lemma set_evaluated: "set (evaluated f sl tr) = {e. FilterEval f sl e \<in> set tr}"
  by (induction tr) (auto split: event.splits)

subsection \<open>A pass over the filters\<close>

lemma pass_inv_step:
  assumes inv: "pass_inv F nSlots B s" and q: "query_ok F nSlots (n, sl, e)" and le: "B sl \<le> e"
    and c: "CheckFilters n sl e s = (b, s')"
  shows "pass_inv F nSlots (B(sl := e)) s'"
proof -
  have d: "distinct (fids n)" and sub: "set (fids n) \<subseteq> F" and sl: "sl < nSlots"
    using q by (auto simp: query_ok_def)
  have r: "\<forall>f\<in>set (fids n). slot_ok s sl f" using inv sub sl by (auto simp: pass_inv_def)
  from CF_step[OF c d r] obtain evs where
    evs: "trace s' = trace s @ evs" "distinct evs"
      "\<forall>ev\<in>set evs. \<exists>f\<in>set (fids n). ev = FilterEval f sl e
         \<and> fLastCheckedEntry (filters s f) ! sl \<noteq> e \<and> fLastCheckedEntry (filters s' f) ! sl = e"
    by blast
  have bound: "\<And>f sl'. f \<in> F \<Longrightarrow> sl' < nSlots \<Longrightarrow> fLastCheckedEntry (filters s f) ! sl' \<le> B sl'"
    using inv by (auto simp: pass_inv_def)
  have mono: "\<And>f sl'. f \<in> F \<Longrightarrow> sl' < nSlots \<Longrightarrow>
     fLastCheckedEntry (filters s f) ! sl' \<le> fLastCheckedEntry (filters s' f) ! sl'
     \<and> fLastCheckedEntry (filters s' f) ! sl' \<le> (B(sl := e)) sl'"
    using CF_last[OF c] bound le by (smt (verit) fun_upd_apply)
  have disj: "set (trace s) \<inter> set evs = {}"
  proof (rule ccontr)
    assume "set (trace s) \<inter> set evs \<noteq> {}"
    then obtain ev where a: "ev \<in> set (trace s)" and b: "ev \<in> set evs" by auto
    from evs(3) b obtain f where f: "f \<in> set (fids n)" "ev = FilterEval f sl e"
      "fLastCheckedEntry (filters s f) ! sl \<noteq> e" by blast
    from inv a f(2) have "e \<le> fLastCheckedEntry (filters s f) ! sl" by (auto simp: pass_inv_def)
    moreover have "fLastCheckedEntry (filters s f) ! sl \<le> e" using bound f(1) sub sl le by fastforce
    ultimately show False using f(3) by simp
  qed
  have 1: "\<forall>f sl e. count_list (trace s') (FilterEval f sl e) \<le> 1"
  proof (intro allI)
    fix f sl' e'
    let ?x = "FilterEval f sl' e'"
    have a: "count_list (trace s) ?x \<le> 1" using inv by (auto simp: pass_inv_def)
    have b: "count_list evs ?x \<le> 1" using evs(2)
      by (rule distinct_count_le1)
    show "count_list (trace s') ?x \<le> 1"
    proof (cases "?x \<in> set evs")
      case True
      then have "?x \<notin> set (trace s)" using disj by auto
      then have "count_list (trace s) ?x = 0" by (simp add: count_list_0_iff)
      then show ?thesis using b evs(1) by simp
    next
      case False
      then have "count_list evs ?x = 0" by (simp add: count_list_0_iff)
      then show ?thesis using a evs(1) by simp
    qed
  qed
  have 2: "\<forall>f sl e. FilterEval f sl e \<in> set (trace s') \<longrightarrow> f \<in> F \<and> sl < nSlots
          \<and> e \<le> fLastCheckedEntry (filters s' f) ! sl"
  proof (intro allI impI)
    fix f sl' e' assume "FilterEval f sl' e' \<in> set (trace s')"
    then consider "FilterEval f sl' e' \<in> set (trace s)" | "FilterEval f sl' e' \<in> set evs" using evs(1) by auto
    then show "f \<in> F \<and> sl' < nSlots \<and> e' \<le> fLastCheckedEntry (filters s' f) ! sl'"
    proof cases
      case 1
      then have "f \<in> F" "sl' < nSlots"
        "e' \<le> fLastCheckedEntry (filters s f) ! sl'" using inv by (auto simp: pass_inv_def)
      moreover from this mono[of f sl'] have "e' \<le> fLastCheckedEntry (filters s' f) ! sl'" by linarith
      ultimately show ?thesis by blast
    next
      case 2
      then show ?thesis using evs(3) sub sl by fastforce
    qed
  qed
  have 3: "\<forall>f\<in>F. \<forall>sl'<nSlots. fLastCheckedEntry (filters s' f) ! sl' \<le> (B(sl := e)) sl' \<and> slot_ok s' sl' f"
    using mono CF_slot_ok[OF c] inv by (auto simp: pass_inv_def)
  show ?thesis unfolding pass_inv_def using 1 2 3 by blast
qed

lemma pass_inv_consult:
  "pass_inv F nSlots B s \<Longrightarrow> \<forall>q\<in>set qs. query_ok F nSlots q \<Longrightarrow> ascending B qs \<Longrightarrow>
   \<exists>B'. pass_inv F nSlots B' (consult qs s)"
proof (induction qs arbitrary: B s)
  case Nil
  then show ?case by auto
next
  case (Cons q qs)
  obtain n sl e where q: "q = (n, sl, e)" by (cases q)
  obtain b s' where c: "CheckFilters n sl e s = (b, s')" by (cases "CheckFilters n sl e s")
  have "pass_inv F nSlots (B(sl := e)) s'"
    using pass_inv_step[OF Cons.prems(1) _ _ c] Cons.prems(2,3) q by simp
  moreover have "\<forall>q\<in>set qs. query_ok F nSlots q" "ascending (B(sl := e)) qs"
    using Cons.prems(2,3) q by simp_all
  ultimately have "\<exists>B'. pass_inv F nSlots B' (consult qs s')" by (rule Cons.IH)
  then show ?case using q c by simp
qed

lemma fresh_pass_inv: "fresh F nSlots s \<Longrightarrow> pass_inv F nSlots (\<lambda>_. 0) s"
  by (auto simp: fresh_def pass_inv_def count_list_0_iff)

lemma count_consult:
  "pass_inv F nSlots B s \<Longrightarrow> \<forall>q\<in>set qs. query_ok F nSlots q \<Longrightarrow> ascending B qs \<Longrightarrow>
   fAccepted (filters (consult qs s) f) ! sl' + fRejected (filters (consult qs s) f) ! sl'
     + of_nat (length (evaluated f sl' (trace s)))
   = fAccepted (filters s f) ! sl' + fRejected (filters s f) ! sl'
     + of_nat (length (evaluated f sl' (trace (consult qs s))))"
proof (induction qs arbitrary: B s)
  case Nil
  then show ?case by simp
next
  case (Cons q qs)
  obtain n sl e where q: "q = (n, sl, e)" by (cases q)
  obtain b s' where c: "CheckFilters n sl e s = (b, s')" by (cases "CheckFilters n sl e s")
  have qok: "query_ok F nSlots (n, sl, e)" and le: "B sl \<le> e" using Cons.prems(2,3) q by simp_all
  have inv': "pass_inv F nSlots (B(sl := e)) s'"
    using pass_inv_step[OF Cons.prems(1) qok le c] .
  have rest: "\<forall>q\<in>set qs. query_ok F nSlots q" "ascending (B(sl := e)) qs"
    using Cons.prems(2,3) q by simp_all
  have d: "distinct (fids n)" and r: "\<forall>f\<in>set (fids n). slot_ok s sl f"
    using qok Cons.prems(1) by (auto simp: query_ok_def pass_inv_def)
  note step = CF_count[OF c d r, of f sl']
  note ih = Cons.IH[OF inv' rest]
  have cs: "consult (q # qs) s = consult qs s'" using q c by simp
  define A0 where "A0 = fAccepted (filters s f) ! sl' + fRejected (filters s f) ! sl'"
  define A1 where "A1 = fAccepted (filters s' f) ! sl' + fRejected (filters s' f) ! sl'"
  define A2 where "A2 = fAccepted (filters (consult qs s') f) ! sl' + fRejected (filters (consult qs s') f) ! sl'"
  define N0 :: "64 word" where "N0 = of_nat (length (evaluated f sl' (trace s)))"
  define N1 :: "64 word" where "N1 = of_nat (length (evaluated f sl' (trace s')))"
  define N2 :: "64 word" where "N2 = of_nat (length (evaluated f sl' (trace (consult qs s'))))"
  have e1: "A1 + N0 = A0 + N1" using step by (simp add: A0_def A1_def N0_def N1_def)
  have e2: "A2 + N1 = A1 + N2" using ih by (simp add: A1_def A2_def N1_def N2_def)
  have "(A2 + N0) + N1 = (A2 + N1) + N0" by (simp add: algebra_simps)
  also have "\<dots> = (A1 + N0) + N2" unfolding e2 by (simp add: algebra_simps)
  also have "\<dots> = (A0 + N2) + N1" unfolding e1 by (simp add: algebra_simps)
  finally have "A2 + N0 = A0 + N2" by simp
  then show ?case unfolding cs by (simp add: A0_def A2_def N0_def N2_def)
qed

lemma sum_list_indicator:
  "(\<Sum>sl'\<leftarrow>[0..<n]. if sl' = sl then 1 else 0) = (if sl < n then 1 else (0::nat))"
  by (induction n) auto

lemma length_evaluated_slots:
  "(\<forall>sl e. FilterEval f sl e \<in> set tr \<longrightarrow> sl < nSlots) \<Longrightarrow>
   (\<Sum>sl\<leftarrow>[0..<nSlots]. length (evaluated f sl tr)) = length (evaluated_at f tr)"
proof (induction tr)
  case Nil
  then show ?case by simp
next
  case (Cons ev tr)
  have ih: "(\<Sum>sl\<leftarrow>[0..<nSlots]. length (evaluated f sl tr)) = length (evaluated_at f tr)"
    using Cons by auto
  show ?case
  proof (cases "\<exists>sl e. ev = FilterEval f sl e")
    case False
    then have "\<And>sl. evaluated f sl (ev # tr) = evaluated f sl tr" "evaluated_at f (ev # tr) = evaluated_at f tr"
      by (auto split: event.splits)
    then show ?thesis using ih by simp
  next
    case True
    then obtain sl e where ev: "ev = FilterEval f sl e" by blast
    then have sl: "sl < nSlots" using Cons.prems by auto
    have "\<And>sl'. length (evaluated f sl' (ev # tr)) = length (evaluated f sl' tr) + (if sl' = sl then 1 else 0)"
      using ev by simp
    then have "(\<Sum>sl'\<leftarrow>[0..<nSlots]. length (evaluated f sl' (ev # tr)))
          = (\<Sum>sl'\<leftarrow>[0..<nSlots]. length (evaluated f sl' tr) + (if sl' = sl then 1 else 0))" by simp
    also have "\<dots> = (\<Sum>sl'\<leftarrow>[0..<nSlots]. length (evaluated f sl' tr)) + (\<Sum>sl'\<leftarrow>[0..<nSlots]. if sl' = sl then 1 else 0)"
      by (simp add: sum_list_addf)
    also have "(\<Sum>sl'\<leftarrow>[0..<nSlots]. if sl' = sl then 1 else 0) = (1::nat)"
      using sl by (simp add: sum_list_indicator)
    finally show ?thesis using ih ev by simp
  qed
qed

lemma memo_ok_cong:
  "(\<forall>f\<in>set (fids n). filters s' f = filters s f) \<Longrightarrow> memo_ok n sl e s' = memo_ok n sl e s"
  by (induction n) auto

lemma CF_passes:
  "CheckFilters n sl e s = (b, s') \<Longrightarrow> distinct (fids n) \<Longrightarrow> (\<forall>f\<in>set (fids n). slot_ok s sl f) \<Longrightarrow>
   memo_ok n sl e s \<Longrightarrow> b = passes n e \<and> memo_ok n sl e s'"
proof (induction n arbitrary: s b s')
  case Impl
  then show ?case by simp
next
  case (Branch x prev)
  then show ?case by simp
next
  case (Filter g p prev)
  show ?case
  proof (cases "e \<noteq> fLastCheckedEntry (filters s g) ! sl")
    case False
    with Filter.prems show ?thesis by auto
  next
    case True
    obtain ok s1 where c: "CheckFilters prev sl e s = (ok, s1)" by (cases "CheckFilters prev sl e s")
    have d: "distinct (fids prev)" and g: "g \<notin> set (fids prev)" using Filter.prems(2) by auto
    have r: "\<forall>f\<in>set (fids prev). slot_ok s sl f" using Filter.prems(3) by auto
    have m: "memo_ok prev sl e s" using Filter.prems(4) by simp
    from Filter.IH[OF c d r m] have ok: "ok = passes prev e" and m1: "memo_ok prev sl e s1" by simp_all
    have s': "s' = setLastCheckedEntry g sl e (if \<not> ok then setLastResult g sl (bool_to_int False) s1 else evaluateFilter g p sl e s1)"
      using CF_miss[OF True c, of p] Filter.prems(1) by simp
    have gs: "filters s1 g = filters s g" using CF_other[OF c g] .
    have ok_g: "sl < length (fLastCheckedEntry (filters s1 g))" "sl < length (fLastResult (filters s1 g))"
      using Filter.prems(3) gs by (simp_all add: slot_ok_def)
    have res: "(fLastResult (filters s' g) ! sl \<noteq> 0) = (ok \<and> p e)"
      unfolding s' using ok_g by (auto simp: upd_defs)
    have b: "b = (fLastResult (filters s' g) ! sl \<noteq> 0)"
      using Filter.prems(1) True c s' by (simp add: Let_def)
    have oth: "\<forall>f\<in>set (fids prev). filters s' f = filters s1 f"
      unfolding s' using g by (auto simp: upd_defs)
    have "memo_ok prev sl e s'" using memo_ok_cong[OF oth] m1 by simp
    then show ?thesis using b res ok by simp
  qed
qed

lemma CF_shortcut:
  assumes d: "distinct (fids (Filter f p prev))"
    and r: "\<forall>g\<in>set (fids (Filter f p prev)). slot_ok s sl g"
    and m: "memo_ok (Filter f p prev) sl e s"
    and np: "\<not> passes prev e"
    and c: "CheckFilters (Filter f p prev) sl e s = (b, s')"
  shows "\<not> b \<and> count_list (trace s') (FilterEval f sl e) = count_list (trace s) (FilterEval f sl e)
     \<and> fLastCheckedEntry (filters s' f) ! sl = e \<and> fLastResult (filters s' f) ! sl = 0
     \<and> fAccepted (filters s' f) = fAccepted (filters s f) \<and> fRejected (filters s' f) = fRejected (filters s f)"
proof (cases "e \<noteq> fLastCheckedEntry (filters s f) ! sl")
  case False
  then show ?thesis using c m np by auto
next
  case True
  obtain ok s1 where c1: "CheckFilters prev sl e s = (ok, s1)" by (cases "CheckFilters prev sl e s")
  have d1: "distinct (fids prev)" and g: "f \<notin> set (fids prev)" using d by auto
  have r1: "\<forall>f\<in>set (fids prev). slot_ok s sl f" using r by auto
  have m1: "memo_ok prev sl e s" using m by simp
  from CF_passes[OF c1 d1 r1 m1] np have ok: "\<not> ok" by simp
  have s': "s' = setLastCheckedEntry f sl e (setLastResult f sl (bool_to_int False) s1)"
    using CF_miss[OF True c1, of p] c ok by simp
  have gs: "filters s1 f = filters s f" using CF_other[OF c1 g] .
  have ok_g: "sl < length (fLastCheckedEntry (filters s1 f))" "sl < length (fLastResult (filters s1 f))"
    using r gs by (simp_all add: slot_ok_def)
  from CF_step[OF c1 d1 r1] obtain evs where evs: "trace s1 = trace s @ evs"
    "\<forall>ev\<in>set evs. \<exists>g\<in>set (fids prev). ev = FilterEval g sl e" by blast
  have "FilterEval f sl e \<notin> set evs" using evs(2) g by auto
  then have "count_list evs (FilterEval f sl e) = 0" by (simp add: count_list_0_iff)
  then have tr: "count_list (trace s') (FilterEval f sl e) = count_list (trace s) (FilterEval f sl e)"
    unfolding s' using evs(1) by (simp add: upd_defs)
  have b: "b = (fLastResult (filters s' f) ! sl \<noteq> 0)"
    using c True c1 ok s' by (simp add: Let_def)
  have "fLastCheckedEntry (filters s' f) ! sl = e" "fLastResult (filters s' f) ! sl = 0"
    "fAccepted (filters s' f) = fAccepted (filters s f)" "fRejected (filters s' f) = fRejected (filters s f)"
    unfolding s' using ok_g gs by (auto simp: upd_defs)
  then show ?thesis using b tr by simp
qed

lemma length_resize: "length (resize n v xs) = n"
  by (simp add: resize_def)

lemma resize_single: "sl < n \<Longrightarrow> resize n v [v] ! sl = v"
  by (cases sl) (auto simp: resize_def nth_append)

lemma fresh_loop_start: "fresh F nSlots (loop_start nSlots)"
  by (auto simp: fresh_def loop_start_def slot_ok_def TDataFrameFilterBase_CreateSlots_def
      TDataFrameFilterBase_init_def length_resize resize_single)

lemma count_evaluated_at: "count_list (evaluated_at f tr) (sl, e) = count_list tr (FilterEval f sl e)"
  by (induction tr) (auto split: event.splits)

lemma of_nat_sum_list_word: "(of_nat (sum_list (map g xs)) :: 64 word) = sum_list (map (\<lambda>x. of_nat (g x)) xs)"
  by (induction xs) auto

lemma pass_summary:
  assumes fr: "fresh F nSlots s0" and qs: "\<forall>q\<in>set qs. query_ok F nSlots q" and asc: "ascending (\<lambda>_. 0) qs"
  shows "\<forall>f sl e. count_list (trace (consult qs s0)) (FilterEval f sl e) \<le> 1"
    and "\<forall>f sl e. FilterEval f sl e \<in> set (trace (consult qs s0)) \<longrightarrow> sl < nSlots"
    and "f \<in> F \<Longrightarrow> sl < nSlots \<Longrightarrow>
         fAccepted (filters (consult qs s0) f) ! sl + fRejected (filters (consult qs s0) f) ! sl
           = of_nat (length (evaluated f sl (trace (consult qs s0))))"
proof -
  have inv: "pass_inv F nSlots (\<lambda>_. 0) s0" using fr by (rule fresh_pass_inv)
  from pass_inv_consult[OF inv qs asc] obtain B' where "pass_inv F nSlots B' (consult qs s0)" by blast
  then show "\<forall>f sl e. count_list (trace (consult qs s0)) (FilterEval f sl e) \<le> 1"
    and "\<forall>f sl e. FilterEval f sl e \<in> set (trace (consult qs s0)) \<longrightarrow> sl < nSlots"
    by (auto simp: pass_inv_def)
  assume f: "f \<in> F" and sl: "sl < nSlots"
  have "set (evaluated f sl (trace s0)) = {}" using fr by (simp add: fresh_def set_evaluated)
  then have "evaluated f sl (trace s0) = []" by simp
  moreover have "fAccepted (filters s0 f) ! sl = 0" "fRejected (filters s0 f) ! sl = 0"
    using fr f sl by (auto simp: fresh_def)
  ultimately show "fAccepted (filters (consult qs s0) f) ! sl + fRejected (filters (consult qs s0) f) ! sl
           = of_nat (length (evaluated f sl (trace (consult qs s0))))"
    using count_consult[OF inv qs asc, of f sl] by simp
qed

lemma pass_slot_sum:
  assumes fr: "fresh F nSlots s0" and qs: "\<forall>q\<in>set qs. query_ok F nSlots q" and asc: "ascending (\<lambda>_. 0) qs"
    and f: "f \<in> F"
  shows "(\<Sum>sl\<leftarrow>[0..<nSlots]. fAccepted (filters (consult qs s0) f) ! sl + fRejected (filters (consult qs s0) f) ! sl)
           = of_nat (length (evaluated_at f (trace (consult qs s0))))"
proof -
  let ?s = "consult qs s0"
  have "map (\<lambda>sl. fAccepted (filters ?s f) ! sl + fRejected (filters ?s f) ! sl) [0..<nSlots]
        = map (\<lambda>sl. of_nat (length (evaluated f sl (trace ?s)))) [0..<nSlots]"
    using pass_summary(3)[OF fr qs asc f] by simp
  then have "(\<Sum>sl\<leftarrow>[0..<nSlots]. fAccepted (filters ?s f) ! sl + fRejected (filters ?s f) ! sl)
        = (\<Sum>sl\<leftarrow>[0..<nSlots]. of_nat (length (evaluated f sl (trace ?s))))"
    by (rule arg_cong)
  also have "\<dots> = of_nat (\<Sum>sl\<leftarrow>[0..<nSlots]. length (evaluated f sl (trace ?s)))"
    by (simp add: of_nat_sum_list_word)
  also have "(\<Sum>sl\<leftarrow>[0..<nSlots]. length (evaluated f sl (trace ?s))) = length (evaluated_at f (trace ?s))"
    using pass_summary(2)[OF fr qs asc] by (intro length_evaluated_slots) blast
  finally show ?thesis .
qed

subsection \<open>Memoised results agree with the predicates\<close>

lemma CF_graph:
  "CheckFilters n sl e s = (b, s') \<Longrightarrow> memo_inv G F nSlots s \<Longrightarrow> consistent G n \<Longrightarrow>
   distinct (fids n) \<Longrightarrow> set (fids n) \<subseteq> F \<Longrightarrow> sl < nSlots \<Longrightarrow> 0 \<le> e \<Longrightarrow>
   b = passes n e \<and> memo_inv G F nSlots s'"
proof (induction n arbitrary: s b s')
  case Impl
  then show ?case by simp
next
  case (Branch x prev)
  then show ?case by simp
next
  case (Filter g p prev)
  have gF: "g \<in> F" and Gg: "G g = Filter g p prev" using Filter.prems(3,5) by simp_all
  have inv_g: "slot_ok s sl g"
    "0 \<le> fLastCheckedEntry (filters s g) ! sl \<longrightarrow>
       (fLastResult (filters s g) ! sl \<noteq> 0) = passes (G g) (fLastCheckedEntry (filters s g) ! sl)"
    using Filter.prems(2,6) gF by (auto simp: memo_inv_def)
  show ?case
  proof (cases "e \<noteq> fLastCheckedEntry (filters s g) ! sl")
    case False
    then have "b = (fLastResult (filters s g) ! sl \<noteq> 0)" "s' = s" using Filter.prems(1) by auto
    then show ?thesis using inv_g(2) False Filter.prems(2,7) Gg by simp
  next
    case True
    obtain ok s1 where c: "CheckFilters prev sl e s = (ok, s1)" by (cases "CheckFilters prev sl e s")
    have d: "distinct (fids prev)" and g: "g \<notin> set (fids prev)" using Filter.prems(4) by auto
    have sub: "set (fids prev) \<subseteq> F" and cons: "consistent G prev" using Filter.prems(3,5) by auto
    from Filter.IH[OF c Filter.prems(2) cons d sub Filter.prems(6,7)]
    have ok: "ok = passes prev e" and inv1: "memo_inv G F nSlots s1" by simp_all
    have s': "s' = setLastCheckedEntry g sl e (if \<not> ok then setLastResult g sl (bool_to_int False) s1 else evaluateFilter g p sl e s1)"
      using CF_miss[OF True c, of p] Filter.prems(1) by simp
    have b: "b = (fLastResult (filters s' g) ! sl \<noteq> 0)"
      using Filter.prems(1) True c s' by (simp add: Let_def)
    have ok_g: "slot_ok s1 sl g" using inv1 gF Filter.prems(6) by (auto simp: memo_inv_def)
    have res: "(fLastResult (filters s' g) ! sl \<noteq> 0) = (ok \<and> p e)"
      and lc: "fLastCheckedEntry (filters s' g) ! sl = e"
      unfolding s' using ok_g by (auto simp: upd_defs slot_ok_def)
    have oth_f: "\<And>f. f \<noteq> g \<Longrightarrow> filters s' f = filters s1 f"
      unfolding s' by (auto simp: upd_defs)
    have oth_sl: "\<And>sl'. sl' \<noteq> sl \<Longrightarrow>
        fLastCheckedEntry (filters s' g) ! sl' = fLastCheckedEntry (filters s1 g) ! sl' \<and>
        fLastResult (filters s' g) ! sl' = fLastResult (filters s1 g) ! sl'"
      unfolding s' by (auto simp: upd_defs)
    have so: "\<And>f sl'. slot_ok s' sl' f = slot_ok s1 sl' f"
      unfolding s' by (auto simp: upd_defs slot_ok_def)
    have tr: "trace s' = (if ok then trace s1 @ [FilterEval g sl e] else trace s1)"
      unfolding s' by (auto simp: upd_defs)
    have 1: "\<forall>f\<in>F. \<forall>sl'<nSlots. slot_ok s' sl' f \<and>
        (0 \<le> fLastCheckedEntry (filters s' f) ! sl' \<longrightarrow>
           (fLastResult (filters s' f) ! sl' \<noteq> 0) = passes (G f) (fLastCheckedEntry (filters s' f) ! sl'))"
    proof (intro ballI allI impI)
      fix f sl' assume f: "f \<in> F" and sl': "sl' < nSlots"
      have i1: "slot_ok s1 sl' f"
        "0 \<le> fLastCheckedEntry (filters s1 f) ! sl' \<longrightarrow>
           (fLastResult (filters s1 f) ! sl' \<noteq> 0) = passes (G f) (fLastCheckedEntry (filters s1 f) ! sl')"
        using inv1 f sl' by (auto simp: memo_inv_def)
      show "slot_ok s' sl' f \<and>
        (0 \<le> fLastCheckedEntry (filters s' f) ! sl' \<longrightarrow>
           (fLastResult (filters s' f) ! sl' \<noteq> 0) = passes (G f) (fLastCheckedEntry (filters s' f) ! sl'))"
      proof (cases "f = g \<and> sl' = sl")
        case True
        then show ?thesis using res lc ok Gg so i1(1) by simp
      next
        case False
        then show ?thesis using oth_f[of f] oth_sl[of sl'] i1 so by (cases "f = g") auto
      qed
    qed
    have 2: "\<forall>f sl' e'. FilterEval f sl' e' \<in> set (trace s') \<longrightarrow>
        (\<exists>p prev. G f = Filter f p prev \<and> passes prev e')"
    proof (intro allI impI)
      fix f sl' e' assume "FilterEval f sl' e' \<in> set (trace s')"
      then consider "FilterEval f sl' e' \<in> set (trace s1)" | "ok \<and> f = g \<and> e' = e"
        using tr by (auto split: if_splits)
      then show "\<exists>p prev. G f = Filter f p prev \<and> passes prev e'"
      proof cases
        case 1
        then show ?thesis using inv1 by (auto simp: memo_inv_def)
      next
        case 2
        then show ?thesis using Gg ok by auto
      qed
    qed
    have "memo_inv G F nSlots s'" unfolding memo_inv_def using 1 2 by blast
    then show ?thesis using b res ok by simp
  qed
qed

lemma fresh_memo_inv: "fresh F nSlots s \<Longrightarrow> memo_inv G F nSlots s"
  by (auto simp: fresh_def memo_inv_def)

lemma consult_memo_inv:
  "memo_inv G F nSlots s \<Longrightarrow> queries_ok F nSlots qs \<Longrightarrow> graph_ok G qs \<Longrightarrow>
   memo_inv G F nSlots (consult qs s)"
proof (induction qs arbitrary: s)
  case Nil
  then show ?case by simp
next
  case (Cons q qs)
  obtain n sl e where q: "q = (n, sl, e)" by (cases q)
  obtain b s' where c: "CheckFilters n sl e s = (b, s')" by (cases "CheckFilters n sl e s")
  have h: "distinct (fids n)" "set (fids n) \<subseteq> F" "sl < nSlots" "consistent G n" "0 \<le> e"
    using Cons.prems(2,3) q by (auto simp: queries_ok_def query_ok_def graph_ok_def)
  have rest: "queries_ok F nSlots qs" "graph_ok G qs"
    using Cons.prems(2,3) by (auto simp: queries_ok_def graph_ok_def)
  from CF_graph[OF c Cons.prems(1) h(4,1,2,3,5)] have "memo_inv G F nSlots s'" by simp
  from Cons.IH[OF this rest] show ?case using q c by simp
qed

lemma pass_short_circuit:
  assumes "fresh F nSlots s0" and "queries_ok F nSlots qs" and "graph_ok G qs"
    and "G g = Filter g q up" and "\<not> passes up e"
  shows "FilterEval g sl e \<notin> set (trace (consult qs s0))"
proof
  assume "FilterEval g sl e \<in> set (trace (consult qs s0))"
  moreover have "memo_inv G F nSlots (consult qs s0)"
    using consult_memo_inv[OF fresh_memo_inv[OF assms(1)] assms(2,3)] .
  ultimately obtain p prev where "G g = Filter g p prev" "passes prev e"
    unfolding memo_inv_def by blast
  then show False using assms(4,5) by simp
qed

subsection \<open>The event loop and the bookings\<close>

lemma CF_RunLoop:
  "CheckFilters n sl e s = (b, s') \<Longrightarrow> count_list (trace s') RunLoop = count_list (trace s) RunLoop"
  by (induction n arbitrary: s b s') (auto simp: upd_defs split: prod.splits if_splits)

lemma Action_Run_RunLoop:
  "Action_Run i bv a sl e s = (a', s') \<Longrightarrow> count_list (trace s') RunLoop = count_list (trace s) RunLoop"
  by (auto simp: Action_Run_def ExecuteAction_def logEvent_def split: prod.splits if_splits dest: CF_RunLoop)

lemma run_actions_RunLoop:
  "run_actions i bv as sl e s = (as', s') \<Longrightarrow> count_list (trace s') RunLoop = count_list (trace s) RunLoop"
proof (induction as arbitrary: i s as' s')
  case Nil
  then show ?case by simp
next
  case (Cons a as)
  obtain a1 s1 where 1: "Action_Run i bv a sl e s = (a1, s1)" by (cases "Action_Run i bv a sl e s")
  obtain as2 s2 where 2: "run_actions (Suc i) bv as sl e s1 = (as2, s2)"
    by (cases "run_actions (Suc i) bv as sl e s1")
  have "s' = s2" using Cons.prems 1 2 by simp
  then show ?case using Action_Run_RunLoop[OF 1] Cons.IH[OF 2] by simp
qed

lemma run_entries_RunLoop:
  "run_entries bv es as s = (as', s') \<Longrightarrow> count_list (trace s') RunLoop = count_list (trace s) RunLoop"
proof (induction es arbitrary: as s as' s')
  case Nil
  then show ?case by simp
next
  case (Cons x es)
  obtain sl e where x: "x = (sl, e)" by (cases x)
  obtain as1 s1 where 1: "run_actions 0 bv as sl e s = (as1, s1)" by (cases "run_actions 0 bv as sl e s")
  have "run_entries bv es as1 s1 = (as', s')" using Cons.prems x 1 by simp
  from Cons.IH[OF this] run_actions_RunLoop[OF 1] show ?case by simp
qed

lemma Run_RunLoop:
  assumes "impl w = Some df"
  shows "count_list (trace (loop (Run w))) RunLoop = Suc (count_list (trace (loop w)) RunLoop)"
proof -
  let ?s0 = "CreateSlots (fNSlots df) (fBookedFilters df) (logEvent RunLoop (loop w))"
  obtain as s where r: "run_entries (branch_value w) (entries w) (fBookedActions df) ?s0 = (as, s)"
    by (cases "run_entries (branch_value w) (entries w) (fBookedActions df) ?s0")
  have "loop (Run w) = s" using assms r by (simp add: Run_def)
  moreover have "count_list (trace ?s0) RunLoop = Suc (count_list (trace (loop w)) RunLoop)"
    by (simp add: CreateSlots_def logEvent_def)
  ultimately show ?thesis using run_entries_RunLoop[OF r] by simp
qed


lemma Run_hasRun:
  "impl w = Some df \<Longrightarrow> \<exists>df'. impl (Run w) = Some df' \<and> fHasRunAtLeastOnce df'"
  by (simp add: Run_def split: prod.splits)

lemmas engine_defs = Filter_node_def Count_def GetDataFrameChecked_def PickBranchNames_def providedBranches_def
  TDataFrame_new_def x_branch_def Book_filter_def Book_action_def make_shared_def MakeActionResultProxy_def
  CountOperation_new_def Get_def TriggerRun_def Run_def CreateSlots_def Action_Run_def ExecuteAction_def
  merge_all_def TDataFrameFilterBase_CreateSlots_def TDataFrameFilterBase_init_def resize_def

lemma count_scenario_booked:
  "\<exists>w. count_scenario = Inr (\<lparr>fReadiness = 2, fObjPtr = 1\<rparr>, w) \<and> \<not> flags w 2 \<and> trace (loop w) = []"
  by (simp add: count_scenario_def engine_defs)

lemma count_scenario_get:
  "case count_scenario of Inl err \<Rightarrow> False | Inr (h, w) \<Rightarrow>
     (case Get h w of Inl err \<Rightarrow> False | Inr (p, w') \<Rightarrow> objects w' p = UInt 3)"
  by (simp add: count_scenario_def engine_defs upd_defs)

lemmas booking_defs = Count_def Reduce_def Take_def Min_def Max_def Mean_def Histo1D_def Histo1DImpl_def
  Histo2D_def Histo3D_def CreateAction_def BuildAndBook_def GetDataFrameChecked_def
  Book_action_def make_shared_def MakeActionResultProxy_def

lemma book_booked_only: "book a n w = Inr (h, w') \<Longrightarrow> booked_only h w w'"
  by (cases a)
     (auto simp: booked_only_def booking_defs GetBranchNames_def GetDefaultBranchNames_def
        split: option.splits sum.splits if_splits prod.splits list.splits TBranch.splits)

lemma book_all_lazy:
  "book_all bs w = Inr w' \<Longrightarrow>
   loop w' = loop w \<and> printed w' = printed w \<and>
   map_option fHasRunAtLeastOnce (impl w') = map_option fHasRunAtLeastOnce (impl w)"
proof (induction bs arbitrary: w)
  case Nil
  then show ?case by simp
next
  case (Cons x bs)
  obtain a n where x: "x = (a, n)" by (cases x)
  from Cons.prems x obtain h w1 where b: "book a n w = Inr (h, w1)" and r: "book_all bs w1 = Inr w'"
    by (auto split: sum.splits)
  from book_booked_only[OF b] have "loop w1 = loop w" "printed w1 = printed w"
    "map_option fHasRunAtLeastOnce (impl w1) = map_option fHasRunAtLeastOnce (impl w)"
    by (auto simp: booked_only_def)
  then show ?case using Cons.IH[OF r] by simp
qed

lemma ForeachSlot_runs:
  assumes "ForeachSlot nArgs bl n w = Inr w'"
  shows "count_list (trace (loop w')) RunLoop = Suc (count_list (trace (loop w)) RunLoop)"
proof -
  from assms obtain df actualBl where df: "impl w = Some df"
    and w': "w' = Run (Book_action \<lparr>fAction = UserCallable, fBranches = actualBl, fPrevData = n\<rparr> w)"
    by (auto simp: ForeachSlot_def GetDataFrameChecked_def split: option.splits sum.splits)
  let ?w1 = "Book_action \<lparr>fAction = UserCallable, fBranches = actualBl, fPrevData = n\<rparr> w"
  have "impl ?w1 = Some (df\<lparr>fBookedActions := fBookedActions df @ [\<lparr>fAction = UserCallable, fBranches = actualBl, fPrevData = n\<rparr>]\<rparr>)"
    using df by (simp add: Book_action_def)
  from Run_RunLoop[OF this] show ?thesis unfolding w' by (simp add: Book_action_def)
qed

subsection \<open>Temporary branches\<close>

lemmas branch_defs = GetValue_def GetValueHelper_def assignLastResultPtr_def
  setLastCheckedEntry_Branch_def Let_def

lemma GetValue_hit:
  "fLastCheckedEntry_Branch (tmp_branches s b) ! sl = e \<Longrightarrow>
   GetValue b ex sl e s = (fLastResultPtr (tmp_branches s b) ! sl, s)"
  by (simp add: GetValue_def)

lemma GetValue_miss:
  assumes "e \<noteq> fLastCheckedEntry_Branch (tmp_branches s b) ! sl"
    and "sl < length (fLastCheckedEntry_Branch (tmp_branches s b))"
    and "sl < length (fLastResultPtr (tmp_branches s b))"
  shows "fst (GetValue b ex sl e s) = Some (next_value s)"
    and "btrace (snd (GetValue b ex sl e s)) = btrace s @ [BranchEval b sl e]"
    and "fLastCheckedEntry_Branch (tmp_branches (snd (GetValue b ex sl e s)) b) ! sl = e"
    and "fLastResultPtr (tmp_branches (snd (GetValue b ex sl e s)) b) ! sl = Some (next_value s)"
    and "fLastResultPtr (tmp_branches s b) ! sl \<noteq> Some (next_value s) \<Longrightarrow>
         heap (snd (GetValue b ex sl e s)) (next_value s) = Some (ex e)"
  using assms by (auto simp: branch_defs split: option.splits)

lemma GetValue_other:
  "b' \<noteq> b \<or> sl' \<noteq> sl \<Longrightarrow>
   fLastCheckedEntry_Branch (tmp_branches (snd (GetValue b ex sl e s)) b') ! sl'
     = fLastCheckedEntry_Branch (tmp_branches s b') ! sl' \<and>
   fLastResultPtr (tmp_branches (snd (GetValue b ex sl e s)) b') ! sl'
     = fLastResultPtr (tmp_branches s b') ! sl'"
  by (auto simp: branch_defs split: option.splits)

lemma GetValue_length:
  "length (fLastCheckedEntry_Branch (tmp_branches (snd (GetValue b ex sl e s)) b'))
     = length (fLastCheckedEntry_Branch (tmp_branches s b')) \<and>
   length (fLastResultPtr (tmp_branches (snd (GetValue b ex sl e s)) b'))
     = length (fLastResultPtr (tmp_branches s b'))"
  by (auto simp: branch_defs split: option.splits)

lemma GetValue_result:
  assumes "sl < length (fLastCheckedEntry_Branch (tmp_branches s b))"
    and "sl < length (fLastResultPtr (tmp_branches s b))"
  shows "fst (GetValue b ex sl e s) = fLastResultPtr (tmp_branches (snd (GetValue b ex sl e s)) b) ! sl"
    and "fLastCheckedEntry_Branch (tmp_branches (snd (GetValue b ex sl e s)) b) ! sl = e"
  using assms by (auto simp: branch_defs split: option.splits)

lemma branch_inv_step:
  assumes inv: "branch_inv nSlots B s" and sl: "sl < nSlots" and le: "B sl \<le> e"
  shows "branch_inv nSlots (B(sl := e)) (snd (GetValue b ex sl e s))"
proof (cases "e = fLastCheckedEntry_Branch (tmp_branches s b) ! sl")
  case True
  then have "snd (GetValue b ex sl e s) = s" by (simp add: GetValue_def)
  moreover have "branch_inv nSlots (B(sl := e)) s"
    using inv le unfolding branch_inv_def by (smt (verit) fun_upd_apply)
  ultimately show ?thesis by simp
next
  case False
  let ?s' = "snd (GetValue b ex sl e s)"
  have rng: "sl < length (fLastCheckedEntry_Branch (tmp_branches s b))"
    "sl < length (fLastResultPtr (tmp_branches s b))"
    using inv sl by (auto simp: branch_inv_def)
  have old_le: "fLastCheckedEntry_Branch (tmp_branches s b) ! sl \<le> B sl"
    using inv sl by (auto simp: branch_inv_def)
  then have lt: "fLastCheckedEntry_Branch (tmp_branches s b) ! sl < e" using le False by linarith
  note m = GetValue_miss[OF _ rng, of e ex] 
  have tr: "btrace ?s' = btrace s @ [BranchEval b sl e]" using m(2) False by simp
  have lc: "fLastCheckedEntry_Branch (tmp_branches ?s' b) ! sl = e" using m(3) False by simp
  have pt: "fLastResultPtr (tmp_branches ?s' b) ! sl = Some (next_value s)" using m(4) False by simp
  have oth: "\<And>b' sl'. b' \<noteq> b \<or> sl' \<noteq> sl \<Longrightarrow>
     fLastCheckedEntry_Branch (tmp_branches ?s' b') ! sl' = fLastCheckedEntry_Branch (tmp_branches s b') ! sl' \<and>
     fLastResultPtr (tmp_branches ?s' b') ! sl' = fLastResultPtr (tmp_branches s b') ! sl'"
    by (rule GetValue_other)
  have notin: "BranchEval b sl e \<notin> set (btrace s)"
  proof
    assume "BranchEval b sl e \<in> set (btrace s)"
    then have "e \<le> fLastCheckedEntry_Branch (tmp_branches s b) ! sl" using inv by (auto simp: branch_inv_def)
    then show False using lt by simp
  qed
  have 1: "\<forall>b' sl' e'. count_list (btrace ?s') (BranchEval b' sl' e') \<le> 1"
  proof (intro allI)
    fix b' sl' e'
    have a: "count_list (btrace s) (BranchEval b' sl' e') \<le> 1" using inv by (auto simp: branch_inv_def)
    show "count_list (btrace ?s') (BranchEval b' sl' e') \<le> 1"
    proof (cases "BranchEval b' sl' e' = BranchEval b sl e")
      case True
      then have "count_list (btrace s) (BranchEval b' sl' e') = 0" using notin by (simp add: count_list_0_iff)
      then show ?thesis using tr True by simp
    next
      case False
      then show ?thesis using a tr by auto
    qed
  qed
  have mono: "\<And>b' sl'. sl' < nSlots \<Longrightarrow>
      fLastCheckedEntry_Branch (tmp_branches s b') ! sl' \<le> fLastCheckedEntry_Branch (tmp_branches ?s' b') ! sl'"
  proof -
    fix b' sl' assume "sl' < nSlots"
    show "fLastCheckedEntry_Branch (tmp_branches s b') ! sl' \<le> fLastCheckedEntry_Branch (tmp_branches ?s' b') ! sl'"
    proof (cases "b' = b \<and> sl' = sl")
      case True
      then show ?thesis using lc lt by simp
    next
      case False
      then show ?thesis using oth[of b' sl'] by auto
    qed
  qed
  have 2: "\<forall>b' sl' e'. BranchEval b' sl' e' \<in> set (btrace ?s') \<longrightarrow>
         sl' < nSlots \<and> e' \<le> fLastCheckedEntry_Branch (tmp_branches ?s' b') ! sl'"
  proof (intro allI impI)
    fix b' sl' e' assume "BranchEval b' sl' e' \<in> set (btrace ?s')"
    then consider "BranchEval b' sl' e' \<in> set (btrace s)" | "b' = b \<and> sl' = sl \<and> e' = e"
      using tr by auto
    then show "sl' < nSlots \<and> e' \<le> fLastCheckedEntry_Branch (tmp_branches ?s' b') ! sl'"
    proof cases
      case 1
      then have "sl' < nSlots" "e' \<le> fLastCheckedEntry_Branch (tmp_branches s b') ! sl'"
        using inv by (auto simp: branch_inv_def)
      then show ?thesis using mono[of sl' b'] by linarith
    next
      case 2
      then show ?thesis using lc sl by simp
    qed
  qed
  have 3: "\<forall>b'. \<forall>sl'<nSlots.
         fLastCheckedEntry_Branch (tmp_branches ?s' b') ! sl' \<le> (B(sl := e)) sl' \<and>
         sl' < length (fLastCheckedEntry_Branch (tmp_branches ?s' b')) \<and>
         sl' < length (fLastResultPtr (tmp_branches ?s' b')) \<and>
         (0 \<le> fLastCheckedEntry_Branch (tmp_branches ?s' b') ! sl' \<longrightarrow>
            fLastResultPtr (tmp_branches ?s' b') ! sl' \<noteq> None)"
  proof (intro allI impI)
    fix b' sl' assume s': "sl' < nSlots"
    have i: "fLastCheckedEntry_Branch (tmp_branches s b') ! sl' \<le> B sl'"
      "sl' < length (fLastCheckedEntry_Branch (tmp_branches s b'))"
      "sl' < length (fLastResultPtr (tmp_branches s b'))"
      "0 \<le> fLastCheckedEntry_Branch (tmp_branches s b') ! sl' \<longrightarrow> fLastResultPtr (tmp_branches s b') ! sl' \<noteq> None"
      using inv s' by (auto simp: branch_inv_def)
    show "fLastCheckedEntry_Branch (tmp_branches ?s' b') ! sl' \<le> (B(sl := e)) sl' \<and>
         sl' < length (fLastCheckedEntry_Branch (tmp_branches ?s' b')) \<and>
         sl' < length (fLastResultPtr (tmp_branches ?s' b')) \<and>
         (0 \<le> fLastCheckedEntry_Branch (tmp_branches ?s' b') ! sl' \<longrightarrow>
            fLastResultPtr (tmp_branches ?s' b') ! sl' \<noteq> None)"
    proof (cases "b' = b \<and> sl' = sl")
      case True
      then show ?thesis using lc pt i(2,3) GetValue_length[of b ex sl e s b'] by simp
    next
      case False
      then have "fLastCheckedEntry_Branch (tmp_branches ?s' b') ! sl' \<le> (B(sl := e)) sl'"
        using oth[of b' sl'] i(1) le by (cases "sl' = sl") auto
      then show ?thesis using False oth[of b' sl'] i GetValue_length[of b ex sl e s b'] by auto
    qed
  qed
  have 4: "\<forall>sl'. 0 \<le> (B(sl := e)) sl'" using inv le unfolding branch_inv_def by (smt (verit) fun_upd_apply)
  show ?thesis unfolding branch_inv_def using 1 2 3 4 by blast
qed

lemma ascending_requests_lower:
  "ascending_requests B qs \<Longrightarrow> j < length qs \<Longrightarrow> qs ! j = (b, sl, e) \<Longrightarrow> B sl \<le> e"
proof (induction qs arbitrary: B j)
  case Nil
  then show ?case by simp
next
  case (Cons q qs)
  obtain b0 sl0 e0 where q: "q = (b0, sl0, e0)" by (cases q)
  have a: "B sl0 \<le> e0" "ascending_requests (B(sl0 := e0)) qs" using Cons.prems(1) q by simp_all
  show ?case
  proof (cases j)
    case 0
    then show ?thesis using Cons.prems(3) q a by simp
  next
    case (Suc j')
    then have "(B(sl0 := e0)) sl \<le> e" using Cons.IH[OF a(2), of j'] Cons.prems(2,3) by simp
    then show ?thesis using a(1) by (cases "sl = sl0") auto
  qed
qed

lemma GetValues_same:
  "branch_inv nSlots B s \<Longrightarrow> requests_ok nSlots qs \<Longrightarrow> ascending_requests B qs \<Longrightarrow>
   GetValues ex qs s = (ps, s') \<Longrightarrow>
   length ps = length qs \<and>
   (\<forall>j<length qs. \<forall>b sl e. qs ! j = (b, sl, e) \<and> fLastCheckedEntry_Branch (tmp_branches s b) ! sl = e
        \<longrightarrow> ps ! j = fLastResultPtr (tmp_branches s b) ! sl) \<and>
   (\<forall>i j. i < j \<and> j < length qs \<and> qs ! i = qs ! j \<longrightarrow> ps ! i = ps ! j) \<and>
   (\<forall>j<length qs. ps ! j \<noteq> None) \<and>
   (\<exists>B'. branch_inv nSlots B' s')"
proof (induction qs arbitrary: B s ps s')
  case Nil
  then show ?case by auto
next
  case (Cons q qs)
  obtain b0 sl0 e0 where q: "q = (b0, sl0, e0)" by (cases q)
  obtain p0 s1 where g: "GetValue b0 (ex b0) sl0 e0 s = (p0, s1)" by (cases "GetValue b0 (ex b0) sl0 e0 s")
  obtain ps1 s2 where r: "GetValues ex qs s1 = (ps1, s2)" by (cases "GetValues ex qs s1")
  have res: "ps = p0 # ps1" "s' = s2" using Cons.prems(4) q g r by simp_all
  have sl0: "sl0 < nSlots" and ok: "requests_ok nSlots qs"
    using Cons.prems(2) q by (simp_all add: requests_ok_def)
  have le: "B sl0 \<le> e0" and asc: "ascending_requests (B(sl0 := e0)) qs" using Cons.prems(3) q by simp_all
  have inv1: "branch_inv nSlots (B(sl0 := e0)) s1"
    using branch_inv_step[OF Cons.prems(1) sl0 le, of b0 "ex b0"] g by simp
  note ih = Cons.IH[OF inv1 ok asc r]
  have rng: "sl0 < length (fLastCheckedEntry_Branch (tmp_branches s b0))"
    "sl0 < length (fLastResultPtr (tmp_branches s b0))"
    "fLastCheckedEntry_Branch (tmp_branches s b0) ! sl0 \<le> B sl0"
    "0 \<le> fLastCheckedEntry_Branch (tmp_branches s b0) ! sl0 \<longrightarrow> fLastResultPtr (tmp_branches s b0) ! sl0 \<noteq> None"
    "0 \<le> B sl0"
    using Cons.prems(1) sl0 by (auto simp: branch_inv_def)
  have p0: "p0 = fLastResultPtr (tmp_branches s1 b0) ! sl0" and lc1: "fLastCheckedEntry_Branch (tmp_branches s1 b0) ! sl0 = e0"
    using GetValue_result[OF rng(1,2), of "ex b0" e0] g by simp_all
  have hit: "fLastCheckedEntry_Branch (tmp_branches s b0) ! sl0 = e0 \<Longrightarrow> s1 = s \<and> p0 = fLastResultPtr (tmp_branches s b0) ! sl0"
    using g by (auto simp: GetValue_def)
  have p0_nn: "p0 \<noteq> None"
  proof (cases "fLastCheckedEntry_Branch (tmp_branches s b0) ! sl0 = e0")
    case True
    then show ?thesis using hit rng(4,5) le by auto
  next
    case False
    then show ?thesis using GetValue_miss(1)[OF _ rng(1,2), of e0 "ex b0"] g by auto
  qed
  have A: "\<forall>j<length (q # qs). \<forall>b sl e. (q # qs) ! j = (b, sl, e) \<and> fLastCheckedEntry_Branch (tmp_branches s b) ! sl = e
        \<longrightarrow> ps ! j = fLastResultPtr (tmp_branches s b) ! sl"
  proof (intro allI impI)
    fix j b sl e
    assume j: "j < length (q # qs)"
      and h: "(q # qs) ! j = (b, sl, e) \<and> fLastCheckedEntry_Branch (tmp_branches s b) ! sl = e"
    show "ps ! j = fLastResultPtr (tmp_branches s b) ! sl"
    proof (cases j)
      case 0
      then have "b = b0" "sl = sl0" "e = e0" using h q by simp_all
      then show ?thesis using hit h res 0 by simp
    next
      case (Suc j')
      then have j': "j' < length qs" and qj: "qs ! j' = (b, sl, e)" using j h by simp_all
      have low: "(B(sl0 := e0)) sl \<le> e" using ascending_requests_lower[OF asc j' qj] .
      have same: "fLastCheckedEntry_Branch (tmp_branches s1 b) ! sl = e \<and>
                  fLastResultPtr (tmp_branches s1 b) ! sl = fLastResultPtr (tmp_branches s b) ! sl"
      proof (cases "b = b0 \<and> sl = sl0")
        case True
        then have "e0 \<le> e" using low by simp
        moreover have "e \<le> e0" using h True rng(3) le by simp
        ultimately have "e = e0" by simp
        then show ?thesis using hit h True by simp
      next
        case False
        then show ?thesis using GetValue_other[of b b0 sl sl0 "ex b0" e0 s] g h by auto
      qed
      then have "ps1 ! j' = fLastResultPtr (tmp_branches s1 b) ! sl" using ih j' qj by blast
      then show ?thesis using same res Suc by simp
    qed
  qed
  have Bc: "\<forall>i j. i < j \<and> j < length (q # qs) \<and> (q # qs) ! i = (q # qs) ! j \<longrightarrow> ps ! i = ps ! j"
  proof (intro allI impI)
    fix i j assume h: "i < j \<and> j < length (q # qs) \<and> (q # qs) ! i = (q # qs) ! j"
    then obtain j' where j': "j = Suc j'" by (cases j) auto
    show "ps ! i = ps ! j"
    proof (cases i)
      case 0
      then have "qs ! j' = (b0, sl0, e0)" "j' < length qs" using h j' q by simp_all
      then have "ps1 ! j' = fLastResultPtr (tmp_branches s1 b0) ! sl0" using ih lc1 by blast
      then show ?thesis using res 0 j' p0 by simp
    next
      case (Suc i')
      then have "i' < j' \<and> j' < length qs \<and> qs ! i' = qs ! j'" using h j' by simp
      then have "ps1 ! i' = ps1 ! j'" using ih by blast
      then show ?thesis using res Suc j' by simp
    qed
  qed
  have C: "\<forall>j<length (q # qs). ps ! j \<noteq> None"
  proof (intro allI impI)
    fix j assume "j < length (q # qs)"
    then show "ps ! j \<noteq> None" using ih p0_nn res by (cases j) auto
  qed
  have "length ps = length (q # qs)" using ih res by simp
  moreover have "\<exists>B'. branch_inv nSlots B' s'" using ih res by simp
  ultimately show ?case using A Bc C by blast
qed

lemma branch_inv_start: "branch_inv nSlots (\<lambda>_. 0) (branches_start nSlots)"
  by (auto simp: branch_inv_def branches_start_def TDataFrameBranch_CreateSlots_def
      TDataFrameBranch_init_def length_resize resize_single)

lemma GetValues_pass:
  assumes ok: "requests_ok nSlots qs" and asc: "ascending_requests (\<lambda>_. 0) qs"
  shows "count_list (btrace (snd (GetValues ex qs (branches_start nSlots)))) (BranchEval b sl e) \<le> 1"
    and "i < length qs \<Longrightarrow> j < length qs \<Longrightarrow> qs ! i = qs ! j \<Longrightarrow>
         fst (GetValues ex qs (branches_start nSlots)) ! i = fst (GetValues ex qs (branches_start nSlots)) ! j
         \<and> fst (GetValues ex qs (branches_start nSlots)) ! i \<noteq> None"
proof -
  obtain ps s' where g: "GetValues ex qs (branches_start nSlots) = (ps, s')"
    by (cases "GetValues ex qs (branches_start nSlots)")
  note r = GetValues_same[OF branch_inv_start ok asc g]
  from r obtain B' where "branch_inv nSlots B' s'" by blast
  then show "count_list (btrace (snd (GetValues ex qs (branches_start nSlots)))) (BranchEval b sl e) \<le> 1"
    using g by (simp add: branch_inv_def)
  assume i: "i < length qs" and j: "j < length qs" and eq: "qs ! i = qs ! j"
  have "ps ! i = ps ! j"
  proof (cases "i < j")
    case True
    then show ?thesis using r j eq by blast
  next
    case False
    show ?thesis
    proof (cases "i = j")
      case True
      then show ?thesis by simp
    next
      case ne: False
      then have "j < i \<and> i < length qs \<and> qs ! j = qs ! i" using False i eq by simp
      then have "ps ! j = ps ! i" using r by blast
      then show ?thesis by simp
    qed
  qed
  moreover have "ps ! i \<noteq> None" using r i by blast
  ultimately show "fst (GetValues ex qs (branches_start nSlots)) ! i = fst (GetValues ex qs (branches_start nSlots)) ! j
         \<and> fst (GetValues ex qs (branches_start nSlots)) ! i \<noteq> None"
    using g by simp
qed

section \<open>The claims\<close>

text \<open>
  Claim C1. Booking a lazy action (\<open>Count\<close>, \<open>Reduce\<close>, \<open>Take\<close>, \<open>Min\<close>, \<open>Max\<close>,
  \<open>Mean\<close>, \<open>Histo1D\<close>, \<open>Histo2D\<close>, \<open>Histo3D\<close>) only registers the action and a
  not-ready result handle: the state of the filters and the trace of invocations are as
  before, so the loop did not run, no column was read and no callable was invoked; the same
  holds after any sequence of such bookings. \<open>ForeachSlot\<close> and \<open>Foreach\<close> run the
  event loop once inside the booking call.
\<close>

theorem booking_is_lazy:
  "(book a n w = Inr (h, w') \<longrightarrow> booked_only h w w') \<and>
   (book_all bs w = Inr w2 \<longrightarrow>
      loop w2 = loop w \<and> printed w2 = printed w \<and>
      map_option fHasRunAtLeastOnce (impl w2) = map_option fHasRunAtLeastOnce (impl w)) \<and>
   (ForeachSlot nArgs bl n w = Inr w3 \<longrightarrow>
      count_list (trace (loop w3)) RunLoop = Suc (count_list (trace (loop w)) RunLoop)) \<and>
   (Foreach nArgs bl n w = Inr w4 \<longrightarrow>
      count_list (trace (loop w4)) RunLoop = Suc (count_list (trace (loop w)) RunLoop))"
  using book_booked_only[of a n w h w'] book_all_lazy[of bs w w2] ForeachSlot_runs[of nArgs bl n w w3]
    ForeachSlot_runs[of "Suc nArgs" bl n w w4]
  by (simp add: Foreach_def)

theorem booking_is_lazy_witness:
  "book Count_a Impl example_tree = Inr (projr (book Count_a Impl example_tree)) \<and>
   booked_only (fst (projr (book Count_a Impl example_tree))) example_tree
      (snd (projr (book Count_a Impl example_tree))) \<and>
   book_all [(Count_a, Impl), (Min_a True ''x'', Impl), (Max_a False [], Impl)] example_tree
     = Inr (projr (book_all [(Count_a, Impl), (Min_a True ''x'', Impl), (Max_a False [], Impl)] example_tree)) \<and>
   trace (loop (projr (book_all [(Count_a, Impl), (Min_a True ''x'', Impl), (Max_a False [], Impl)] example_tree))) = [] \<and>
   ForeachSlot 2 [''x''] Impl example_tree = Inr (projr (ForeachSlot 2 [''x''] Impl example_tree)) \<and>
   count_list (trace (loop (projr (ForeachSlot 2 [''x''] Impl example_tree)))) RunLoop = 1 \<and>
   Foreach 1 [''x''] Impl example_tree = Inr (projr (Foreach 1 [''x''] Impl example_tree)) \<and>
   count_list (trace (loop (projr (Foreach 1 [''x''] Impl example_tree)))) RunLoop = 1"
proof -
  let ?bs = "[(Count_a, Impl), (Min_a True ''x'', Impl), (Max_a False [], Impl)]"
  have t0: "trace (loop example_tree) = []" by (simp add: example_tree_def TDataFrame_new_def)
  have h1: "book Count_a Impl example_tree = Inr (projr (book Count_a Impl example_tree))"
    by (simp add: example_tree_def engine_defs)
  have h2: "book_all ?bs example_tree = Inr (projr (book_all ?bs example_tree))"
    by (simp add: example_tree_def TDataFrame_new_def x_branch_def booking_defs GetBranchNames_def
        GetDefaultBranchNames_def neededBranches_def providedBranches_def)
  have h3: "ForeachSlot 2 [''x''] Impl example_tree = Inr (projr (ForeachSlot 2 [''x''] Impl example_tree))"
    by (simp add: ForeachSlot_def example_tree_def TDataFrame_new_def GetDataFrameChecked_def
        PickBranchNames_def providedBranches_def)
  have h4: "Foreach 1 [''x''] Impl example_tree = Inr (projr (Foreach 1 [''x''] Impl example_tree))"
    using h3 by (simp add: Foreach_def numeral_2_eq_2)
  note th = booking_is_lazy[where a=Count_a and n=Impl and w=example_tree
      and h="fst (projr (book Count_a Impl example_tree))" and w'="snd (projr (book Count_a Impl example_tree))"
      and bs="?bs" and ?w2.0="projr (book_all ?bs example_tree)"
      and nArgs="2" and bl="[''x'']" and ?w3.0="projr (ForeachSlot 2 [''x''] Impl example_tree)"]
  note th' = booking_is_lazy[where n=Impl and w=example_tree
      and nArgs="1" and bl="[''x'']" and ?w4.0="projr (Foreach 1 [''x''] Impl example_tree)"]
  from th th' h1 h2 h3 h4 t0 show ?thesis by simp
qed

text \<open>
  Claim C2. When \<^verbatim>\<open>CheckFilters(slot, entry)\<close> of a filter is called with the entry that
  the filter examined last in that slot, it returns the memoised \<^verbatim>\<open>fLastResult[slot]\<close> and
  leaves the whole state as it was: the predicate is not invoked and nothing is logged.
  Consequently, in a pass that starts from freshly created slots and in which every slot
  visits its entries in ascending order, the predicate of any filter is invoked at most once
  per slot and entry, however many downstream nodes consult the filter.
\<close>

theorem CheckFilters_memoised:
  "(fLastCheckedEntry (filters s f) ! sl = e \<longrightarrow>
      CheckFilters (Filter f p prev) sl e s = (fLastResult (filters s f) ! sl \<noteq> 0, s)) \<and>
   (fresh F nSlots s0 \<and> queries_ok F nSlots qs \<and> ascending (\<lambda>_. 0) qs \<longrightarrow>
      count_list (trace (consult qs s0)) (FilterEval g sl' e') \<le> 1)"
  using pass_summary(1)[of F nSlots s0 qs] by (simp add: queries_ok_def)

theorem CheckFilters_memoised_witness:
  "fLastCheckedEntry (filters (consult [(even_filter, 0, 5)] (loop_start 1)) 0) ! 0 = 5 \<and>
   CheckFilters (Filter 0 (\<lambda>e. (e + 1) mod 2 = 0) Impl) 0 5 (consult [(even_filter, 0, 5)] (loop_start 1))
     = (True, consult [(even_filter, 0, 5)] (loop_start 1)) \<and>
   fresh {0, 1} 2 (loop_start 2) \<and> queries_ok {0, 1} 2 example_pass \<and>
   ascending (\<lambda>_. 0) example_pass \<and>
   count_list (trace (consult example_pass (loop_start 2))) (FilterEval 0 1 5) \<le> 1"
proof -
  let ?s = "consult [(even_filter, 0, 5)] (loop_start 1)"
  have h1: "fLastCheckedEntry (filters ?s 0) ! 0 = 5"
    by (simp add: loop_start_def TDataFrameFilterBase_CreateSlots_def TDataFrameFilterBase_init_def
        resize_def upd_defs even_filter_def)
  have r: "fLastResult (filters ?s 0) ! 0 \<noteq> 0"
    by (simp add: loop_start_def TDataFrameFilterBase_CreateSlots_def TDataFrameFilterBase_init_def
        resize_def upd_defs even_filter_def)
  have h2: "fresh {0, 1} 2 (loop_start 2)" by (rule fresh_loop_start)
  have h3: "queries_ok {0, 1} 2 example_pass"
    by (simp add: queries_ok_def query_ok_def example_pass_def big_filter_def even_filter_def)
  have h4: "ascending (\<lambda>_. 0) example_pass" by (simp add: example_pass_def)
  from CheckFilters_memoised[where s="?s" and f="0" and sl="0" and e="5"
      and p="\<lambda>e. (e + 1) mod 2 = 0" and prev=Impl and F="{0, 1}" and nSlots="2"
      and ?s0.0="loop_start 2" and qs=example_pass and g="0" and sl'="1" and e'="5"] h1 h2 h3 h4 r
  show ?thesis by presburger
qed

text \<open>
  Claim C3. In a chain of filters, when some filter upstream of a filter \<open>f\<close> rejects the
  entry (and the memoised results agree with the predicates, as they do in every state a
  pass reaches), \<^verbatim>\<open>CheckFilters\<close> of \<open>f\<close> returns \<^verbatim>\<open>false\<close> without invoking the
  predicate of \<open>f\<close> for that slot and entry, and \<open>f\<close> memoises \<^verbatim>\<open>false\<close> for the entry.
  Over a whole pass from freshly created slots, whatever nodes consult the chain: the
  predicate of a filter is never invoked for a slot and an entry that some filter upstream
  of it rejects.
\<close>

theorem CheckFilters_short_circuit:
  "(distinct (fids (Filter f p prev)) \<and> slots_ok (Filter f p prev) s sl \<and>
    memo_ok (Filter f p prev) sl e s \<and> \<not> passes prev e \<longrightarrow>
      fst (CheckFilters (Filter f p prev) sl e s) = False \<and>
      count_list (trace (snd (CheckFilters (Filter f p prev) sl e s))) (FilterEval f sl e)
        = count_list (trace s) (FilterEval f sl e) \<and>
      fLastCheckedEntry (filters (snd (CheckFilters (Filter f p prev) sl e s)) f) ! sl = e \<and>
      fLastResult (filters (snd (CheckFilters (Filter f p prev) sl e s)) f) ! sl = 0) \<and>
   (fresh F nSlots s0 \<and> queries_ok F nSlots qs \<and> graph_ok G qs \<and>
    G g = Filter g q up \<and> \<not> passes up e' \<longrightarrow>
      FilterEval g sl' e' \<notin> set (trace (consult qs s0)))"
proof (intro conjI impI)
  assume a: "distinct (fids (Filter f p prev)) \<and> slots_ok (Filter f p prev) s sl \<and>
    memo_ok (Filter f p prev) sl e s \<and> \<not> passes prev e"
  then have h: "distinct (fids (Filter f p prev))" "\<forall>g\<in>set (fids (Filter f p prev)). slot_ok s sl g"
    "memo_ok (Filter f p prev) sl e s" "\<not> passes prev e" unfolding slots_ok_def by blast+
  note sc = CF_shortcut[OF h, of "fst (CheckFilters (Filter f p prev) sl e s)"
      "snd (CheckFilters (Filter f p prev) sl e s)"]
  show "fst (CheckFilters (Filter f p prev) sl e s) = False" using sc by simp
  show "count_list (trace (snd (CheckFilters (Filter f p prev) sl e s))) (FilterEval f sl e)
        = count_list (trace s) (FilterEval f sl e)" using sc by simp
  show "fLastCheckedEntry (filters (snd (CheckFilters (Filter f p prev) sl e s)) f) ! sl = e" using sc by simp
  show "fLastResult (filters (snd (CheckFilters (Filter f p prev) sl e s)) f) ! sl = 0" using sc by simp
next
  assume "fresh F nSlots s0 \<and> queries_ok F nSlots qs \<and> graph_ok G qs \<and>
    G g = Filter g q up \<and> \<not> passes up e'"
  then show "FilterEval g sl' e' \<notin> set (trace (consult qs s0))"
    using pass_short_circuit[of F nSlots s0 qs G g q up e' sl'] by blast
qed

theorem CheckFilters_short_circuit_witness:
  "distinct (fids (Filter 1 (\<lambda>e. 5 < e + 1) even_filter)) \<and>
   slots_ok (Filter 1 (\<lambda>e. 5 < e + 1) even_filter) (loop_start 1) 0 \<and>
   memo_ok (Filter 1 (\<lambda>e. 5 < e + 1) even_filter) 0 6 (loop_start 1) \<and>
   \<not> passes even_filter 6 \<and>
   fst (CheckFilters (Filter 1 (\<lambda>e. 5 < e + 1) even_filter) 0 6 (loop_start 1)) = False \<and>
   count_list (trace (snd (CheckFilters (Filter 1 (\<lambda>e. 5 < e + 1) even_filter) 0 6 (loop_start 1))))
       (FilterEval 1 0 6) = count_list (trace (loop_start 1)) (FilterEval 1 0 6) \<and>
   fLastCheckedEntry (filters (snd (CheckFilters (Filter 1 (\<lambda>e. 5 < e + 1) even_filter) 0 6 (loop_start 1))) 1) ! 0 = 6 \<and>
   fLastResult (filters (snd (CheckFilters (Filter 1 (\<lambda>e. 5 < e + 1) even_filter) 0 6 (loop_start 1))) 1) ! 0 = 0 \<and>
   fresh {0, 1} 2 (loop_start 2) \<and> queries_ok {0, 1} 2 example_pass \<and>
   graph_ok example_graph example_pass \<and>
   example_graph 1 = Filter 1 (\<lambda>e. 5 < e + 1) even_filter \<and> \<not> passes even_filter 0 \<and>
   FilterEval 1 0 0 \<notin> set (trace (consult example_pass (loop_start 2)))"
proof -
  let ?n = "Filter 1 (\<lambda>e. 5 < e + 1) even_filter"
  have fr: "fresh {0, 1} 1 (loop_start 1)" by (rule fresh_loop_start)
  have h1: "distinct (fids ?n)" by (simp add: even_filter_def)
  have h2: "slots_ok ?n (loop_start 1) 0" using fr by (simp add: fresh_def slots_ok_def even_filter_def)
  have h3: "memo_ok ?n 0 6 (loop_start 1)" using fr by (simp add: fresh_def even_filter_def)
  have h4: "\<not> passes even_filter 6" by (simp add: even_filter_def)
  have g1: "fresh {0, 1} 2 (loop_start 2)" by (rule fresh_loop_start)
  have g2: "queries_ok {0, 1} 2 example_pass"
    by (simp add: queries_ok_def query_ok_def example_pass_def big_filter_def even_filter_def)
  have g3: "graph_ok example_graph example_pass"
    by (simp add: graph_ok_def example_graph_def example_pass_def big_filter_def even_filter_def)
  have g4: "example_graph 1 = ?n" by (simp add: example_graph_def big_filter_def)
  have g5: "\<not> passes even_filter 0" by (simp add: even_filter_def)
  note t = CheckFilters_short_circuit[where f="1" and p="\<lambda>e. 5 < e + 1" and prev=even_filter
      and s="loop_start 1" and sl="0" and e="6" and F="{0, 1}" and nSlots="2" and ?s0.0="loop_start 2"
      and qs=example_pass and G=example_graph and g="1" and q="\<lambda>e. 5 < e + 1" and up=even_filter
      and e'="0" and sl'="0"]
  from t h1 h2 h3 h4 g1 g2 g3 g4 g5 show ?thesis by blast
qed

text \<open>
  Claim C4. \<^verbatim>\<open>GetValue(slot, entry)\<close> of a temporary branch called with the entry the
  slot examined last returns the cached pointer and changes nothing: the expression is not
  evaluated. The first request for a new entry evaluates the expression once, stores the
  value in a fresh object owned by \<^verbatim>\<open>fLastResultPtr[slot]\<close> and returns its address, and
  a further request for the same slot and entry returns that same address without
  evaluating. In a pass from freshly created slots with ascending entries per slot, the
  expression of a branch is evaluated at most once per slot and entry, and any two requests
  for the same branch, slot and entry receive the same, non-null address.
\<close>

theorem GetValue_cached:
  "(fLastCheckedEntry_Branch (tmp_branches s b) ! sl = e \<longrightarrow>
      GetValue b ex sl e s = (fLastResultPtr (tmp_branches s b) ! sl, s)) \<and>
   (e \<noteq> fLastCheckedEntry_Branch (tmp_branches s b) ! sl \<and>
    sl < length (fLastCheckedEntry_Branch (tmp_branches s b)) \<and>
    sl < length (fLastResultPtr (tmp_branches s b)) \<and>
    fLastResultPtr (tmp_branches s b) ! sl \<noteq> Some (next_value s) \<longrightarrow>
      fst (GetValue b ex sl e s) = Some (next_value s) \<and>
      heap (snd (GetValue b ex sl e s)) (next_value s) = Some (ex e) \<and>
      btrace (snd (GetValue b ex sl e s)) = btrace s @ [BranchEval b sl e] \<and>
      GetValue b ex sl e (snd (GetValue b ex sl e s)) = (Some (next_value s), snd (GetValue b ex sl e s))) \<and>
   (requests_ok nSlots qs \<and> ascending_requests (\<lambda>_. 0) qs \<longrightarrow>
      count_list (btrace (snd (GetValues exs qs (branches_start nSlots)))) (BranchEval b' sl' e') \<le> 1 \<and>
      (i < length qs \<and> j < length qs \<and> qs ! i = qs ! j \<longrightarrow>
         fst (GetValues exs qs (branches_start nSlots)) ! i = fst (GetValues exs qs (branches_start nSlots)) ! j \<and>
         fst (GetValues exs qs (branches_start nSlots)) ! i \<noteq> None))"
proof (intro conjI impI)
  assume "fLastCheckedEntry_Branch (tmp_branches s b) ! sl = e"
  then show "GetValue b ex sl e s = (fLastResultPtr (tmp_branches s b) ! sl, s)" by (rule GetValue_hit)
next
  assume a: "e \<noteq> fLastCheckedEntry_Branch (tmp_branches s b) ! sl \<and>
    sl < length (fLastCheckedEntry_Branch (tmp_branches s b)) \<and>
    sl < length (fLastResultPtr (tmp_branches s b)) \<and>
    fLastResultPtr (tmp_branches s b) ! sl \<noteq> Some (next_value s)"
  then have h: "e \<noteq> fLastCheckedEntry_Branch (tmp_branches s b) ! sl"
    "sl < length (fLastCheckedEntry_Branch (tmp_branches s b))"
    "sl < length (fLastResultPtr (tmp_branches s b))"
    "fLastResultPtr (tmp_branches s b) ! sl \<noteq> Some (next_value s)" by simp_all
  note m = GetValue_miss[OF h(1,2,3), of ex]
  show "fst (GetValue b ex sl e s) = Some (next_value s)" using m(1) .
  show "heap (snd (GetValue b ex sl e s)) (next_value s) = Some (ex e)" using m(5)[OF h(4)] .
  show "btrace (snd (GetValue b ex sl e s)) = btrace s @ [BranchEval b sl e]" using m(2) .
  show "GetValue b ex sl e (snd (GetValue b ex sl e s)) = (Some (next_value s), snd (GetValue b ex sl e s))"
    using GetValue_hit[OF m(3)] m(4) by simp
next
  assume a: "requests_ok nSlots qs \<and> ascending_requests (\<lambda>_. 0) qs"
  then show "count_list (btrace (snd (GetValues exs qs (branches_start nSlots)))) (BranchEval b' sl' e') \<le> 1"
    using GetValues_pass(1) by blast
next
  assume a: "requests_ok nSlots qs \<and> ascending_requests (\<lambda>_. 0) qs"
    and b: "i < length qs \<and> j < length qs \<and> qs ! i = qs ! j"
  then show "fst (GetValues exs qs (branches_start nSlots)) ! i = fst (GetValues exs qs (branches_start nSlots)) ! j"
    using GetValues_pass(2)[of nSlots qs i j exs] by blast
next
  assume a: "requests_ok nSlots qs \<and> ascending_requests (\<lambda>_. 0) qs"
    and b: "i < length qs \<and> j < length qs \<and> qs ! i = qs ! j"
  then show "fst (GetValues exs qs (branches_start nSlots)) ! i \<noteq> None"
    using GetValues_pass(2)[of nSlots qs i j exs] by blast
qed

theorem GetValue_cached_witness:
  "(3::int) \<noteq> fLastCheckedEntry_Branch (tmp_branches (branches_start 2 :: int branch_state) 0) ! 0 \<and>
   fst (GetValue 0 (\<lambda>e. 2 * e) 0 3 (branches_start 2 :: int branch_state)) = Some 0 \<and>
   heap (snd (GetValue 0 (\<lambda>e. 2 * e) 0 3 (branches_start 2 :: int branch_state))) 0 = Some 6 \<and>
   fLastCheckedEntry_Branch (tmp_branches (snd (GetValue 0 (\<lambda>e. 2 * e) 0 3 (branches_start 2 :: int branch_state))) 0) ! 0 = 3 \<and>
   GetValue 0 (\<lambda>e. 2 * e) 0 3 (snd (GetValue 0 (\<lambda>e. 2 * e) 0 3 (branches_start 2 :: int branch_state)))
     = (Some 0, snd (GetValue 0 (\<lambda>e. 2 * e) 0 3 (branches_start 2 :: int branch_state))) \<and>
   requests_ok 2 example_requests \<and> ascending_requests (\<lambda>_. 0) example_requests \<and>
   example_requests ! 4 = example_requests ! 6 \<and>
   count_list (btrace (snd (GetValues (\<lambda>b e. 2 * e + int b) example_requests (branches_start 2 :: int branch_state))))
      (BranchEval 0 0 1) \<le> 1 \<and>
   fst (GetValues (\<lambda>b e. 2 * e + int b) example_requests (branches_start 2 :: int branch_state)) ! 4
     = fst (GetValues (\<lambda>b e. 2 * e + int b) example_requests (branches_start 2 :: int branch_state)) ! 6 \<and>
   fst (GetValues (\<lambda>b e. 2 * e + int b) example_requests (branches_start 2 :: int branch_state)) ! 4 \<noteq> None"
proof -
  let ?s0 = "branches_start 2 :: int branch_state"
  let ?s1 = "snd (GetValue 0 (\<lambda>e. 2 * e) 0 3 ?s0)"
  note sd = branches_start_def TDataFrameBranch_CreateSlots_def TDataFrameBranch_init_def resize_def
  have a1: "(3::int) \<noteq> fLastCheckedEntry_Branch (tmp_branches ?s0 0) ! 0" by (simp add: sd)
  have a2: "0 < length (fLastCheckedEntry_Branch (tmp_branches ?s0 0))" by (simp add: sd)
  have a3: "0 < length (fLastResultPtr (tmp_branches ?s0 0))" by (simp add: sd)
  have a4: "fLastResultPtr (tmp_branches ?s0 0) ! 0 \<noteq> Some (next_value ?s0)" by (simp add: sd)
  have a5: "next_value ?s0 = 0" by (simp add: sd)
  have a6: "fLastCheckedEntry_Branch (tmp_branches ?s1 0) ! 0 = 3" by (simp add: sd branch_defs)
  have a7: "fLastResultPtr (tmp_branches ?s1 0) ! 0 = Some 0" by (simp add: sd branch_defs)
  have b1: "requests_ok 2 example_requests" by (simp add: requests_ok_def example_requests_def)
  have b2: "ascending_requests (\<lambda>_. 0) example_requests" by (simp add: example_requests_def)
  have b3: "example_requests ! 4 = example_requests ! 6" "4 < length example_requests" "6 < length example_requests"
    by (simp_all add: example_requests_def)
  note t1 = GetValue_cached[where s="?s0" and b="0" and sl="0" and e="3" and ex="\<lambda>e. 2 * e"
      and nSlots="2" and qs=example_requests and exs="\<lambda>b e. 2 * e + int b" and b'="0" and sl'="0" and e'="1"
      and i="4" and j="6"]
  note t2 = GetValue_cached[where s="?s1" and b="0" and sl="0" and e="3" and ex="\<lambda>e. 2 * e"]
  note t1' = t1[unfolded a5]
  note h1 = a1 a2 a3 a4[unfolded a5]
  from t1' h1 have r1a: "fst (GetValue 0 (\<lambda>e. 2 * e) 0 3 ?s0) = Some 0" by blast
  from t1' h1 have "heap ?s1 0 = Some (2 * 3)" by blast
  then have r1b: "heap ?s1 0 = Some 6" by simp
  from t1' b1 b2 have r1c:
    "count_list (btrace (snd (GetValues (\<lambda>b e. 2 * e + int b) example_requests ?s0))) (BranchEval 0 0 1) \<le> 1"
    by blast
  from t1' b1 b2 b3 have r1d:
    "fst (GetValues (\<lambda>b e. 2 * e + int b) example_requests ?s0) ! 4
       = fst (GetValues (\<lambda>b e. 2 * e + int b) example_requests ?s0) ! 6"
    "fst (GetValues (\<lambda>b e. 2 * e + int b) example_requests ?s0) ! 4 \<noteq> None"
    by blast+
  note r1 = r1a r1b r1c r1d
  from t2 a6 have "GetValue 0 (\<lambda>e. 2 * e) 0 3 ?s1 = (fLastResultPtr (tmp_branches ?s1 0) ! 0, ?s1)"
    by blast
  then have r2: "GetValue 0 (\<lambda>e. 2 * e) 0 3 ?s1 = (Some 0, ?s1)" using a7 by simp
  show ?thesis using a1 a6 b1 b2 b3(1) r1 r2 by blast
qed

text \<open>
  Claim C6, as stated, fails: \<open>Report\<close> on a data frame whose event loop has never run
  does not fail. It returns normally after printing a warning.
\<close>

theorem Report_before_run_returns:
  "\<not> isl (Report Impl (TDataFrame_new [] 1 (\<lambda>_ _. 0) [] (Some (\<lambda>_. None)) (\<lambda>_. Inr T_other))) \<and>
   Report Impl (TDataFrame_new [] 1 (\<lambda>_ _. 0) [] (Some (\<lambda>_. None)) (\<lambda>_. Inr T_other))
     = Inr ((TDataFrame_new [] 1 (\<lambda>_ _. 0) [] (Some (\<lambda>_. None)) (\<lambda>_. Inr T_other))
              \<lparr>printed := [Warning ''Warning: the event-loop has not been run yet, all reports are empty'']\<rparr>)"
  by (simp add: Report_def GetDataFrameChecked_def TDataFrame_new_def)

text \<open>
  Claim C6, amended. On a reachable data frame whose event loop has never run, \<open>Report\<close>
  of any node prints the warning that all reports are empty and returns normally, printing
  no statistics.
\<close>

theorem Report_before_run_warns:
  assumes "impl w = Some df" and "\<not> fHasRunAtLeastOnce df"
  shows "Report n w = Inr (w\<lparr>printed := printed w @
           [Warning ''Warning: the event-loop has not been run yet, all reports are empty'']\<rparr>)"
  using assms by (simp add: Report_def GetDataFrameChecked_def)

theorem Report_before_run_warns_witness:
  "impl example_tree = Some (the (impl example_tree)) \<and>
   \<not> fHasRunAtLeastOnce (the (impl example_tree)) \<and>
   Report Impl example_tree = Inr (example_tree\<lparr>printed := printed example_tree @
           [Warning ''Warning: the event-loop has not been run yet, all reports are empty'']\<rparr>)"
proof -
  have a: "impl example_tree = Some (the (impl example_tree))"
    and b: "\<not> fHasRunAtLeastOnce (the (impl example_tree))"
    by (simp_all add: example_tree_def TDataFrame_new_def)
  from Report_before_run_warns[OF a b] a b show ?thesis by blast
qed



text \<open>
  Claim C8. \<^verbatim>\<open>GetBranchNames\<close> for a callable that needs \<open>k\<close> branches: when \<open>bl\<close>
  has exactly \<open>k\<close> non-empty names it is returned as given; otherwise the first \<open>k\<close>
  names of the default branches are returned, and the call fails with
  \<open>InsufficientDefaults\<close> when the defaults are fewer than \<open>k\<close> (with \<open>EngineGone\<close>
  when the defaults cannot be reached).
\<close>

theorem GetBranchNames_policy:
  "GetBranchNames isT2Void isT3Void isT4Void bl w =
     (if providedBranches bl = neededBranches isT2Void isT3Void isT4Void then Inr bl
      else case impl w of
             None \<Rightarrow> Inl EngineGone
           | Some df \<Rightarrow>
               if length (fDefaultBranches df) < neededBranches isT2Void isT3Void isT4Void
               then Inl InsufficientDefaults
               else Inr (take (neededBranches isT2Void isT3Void isT4Void) (fDefaultBranches df)))"
  by (auto simp: GetBranchNames_def GetDefaultBranchNames_def GetDataFrameChecked_def split: option.splits)

text \<open>
  Claim C9. At every point of a pass (any sequence of consultations from freshly created
  slots, each slot ascending), for every filter and slot the accepted counter plus the
  rejected counter equals, in 64-bit arithmetic, the number of entries on which the filter's
  own predicate was evaluated in that slot, and these entries are pairwise distinct; the sum
  over the slots equals the number of (slot, entry) pairs that reached the predicate. An
  entry that an upstream filter rejects changes neither counter.
\<close>

theorem filter_counters_account:
  "(fresh F nSlots s0 \<and> queries_ok F nSlots qs \<and> ascending (\<lambda>_. 0) qs \<and> f \<in> F \<longrightarrow>
      (\<forall>sl<nSlots.
          fAccepted (filters (consult qs s0) f) ! sl + fRejected (filters (consult qs s0) f) ! sl
            = of_nat (length (evaluated f sl (trace (consult qs s0)))) \<and>
          distinct (evaluated f sl (trace (consult qs s0)))) \<and>
      (\<Sum>sl\<leftarrow>[0..<nSlots]. fAccepted (filters (consult qs s0) f) ! sl + fRejected (filters (consult qs s0) f) ! sl)
            = of_nat (length (evaluated_at f (trace (consult qs s0)))) \<and>
      distinct (evaluated_at f (trace (consult qs s0)))) \<and>
   (distinct (fids (Filter g p prev)) \<and> slots_ok (Filter g p prev) s sl' \<and>
    memo_ok (Filter g p prev) sl' e s \<and> \<not> passes prev e \<longrightarrow>
      fAccepted (filters (snd (CheckFilters (Filter g p prev) sl' e s)) g) = fAccepted (filters s g) \<and>
      fRejected (filters (snd (CheckFilters (Filter g p prev) sl' e s)) g) = fRejected (filters s g))"
proof (intro conjI impI)
  assume a: "fresh F nSlots s0 \<and> queries_ok F nSlots qs \<and> ascending (\<lambda>_. 0) qs \<and> f \<in> F"
  then have fr: "fresh F nSlots s0" and qs: "\<forall>q\<in>set qs. query_ok F nSlots q"
    and asc: "ascending (\<lambda>_. 0) qs" and f: "f \<in> F" by (simp_all add: queries_ok_def)
  note once = pass_summary(1)[OF fr qs asc]
  have d1: "\<And>sl. distinct (evaluated f sl (trace (consult qs s0)))"
    using once by (intro count_le1_distinct) (simp add: count_evaluated)
  show "\<forall>sl<nSlots.
          fAccepted (filters (consult qs s0) f) ! sl + fRejected (filters (consult qs s0) f) ! sl
            = of_nat (length (evaluated f sl (trace (consult qs s0)))) \<and>
          distinct (evaluated f sl (trace (consult qs s0)))"
    using pass_summary(3)[OF fr qs asc f] d1 by blast
  show "(\<Sum>sl\<leftarrow>[0..<nSlots]. fAccepted (filters (consult qs s0) f) ! sl + fRejected (filters (consult qs s0) f) ! sl)
            = of_nat (length (evaluated_at f (trace (consult qs s0))))"
    using pass_slot_sum[OF fr qs asc f] .
  have "\<forall>x. count_list (evaluated_at f (trace (consult qs s0))) x \<le> 1"
  proof
    fix x :: "slot \<times> entry"
    obtain sl e where "x = (sl, e)" by (cases x)
    then show "count_list (evaluated_at f (trace (consult qs s0))) x \<le> 1"
      using once by (simp add: count_evaluated_at)
  qed
  then show "distinct (evaluated_at f (trace (consult qs s0)))" by (rule count_le1_distinct)
next
  assume b: "distinct (fids (Filter g p prev)) \<and> slots_ok (Filter g p prev) s sl' \<and>
    memo_ok (Filter g p prev) sl' e s \<and> \<not> passes prev e"
  then have h: "distinct (fids (Filter g p prev))" "\<forall>h\<in>set (fids (Filter g p prev)). slot_ok s sl' h"
    "memo_ok (Filter g p prev) sl' e s" "\<not> passes prev e" unfolding slots_ok_def by blast+
  note sc = CF_shortcut[OF h, of "fst (CheckFilters (Filter g p prev) sl' e s)"
      "snd (CheckFilters (Filter g p prev) sl' e s)"]
  show "fAccepted (filters (snd (CheckFilters (Filter g p prev) sl' e s)) g) = fAccepted (filters s g)"
    using sc by simp
  show "fRejected (filters (snd (CheckFilters (Filter g p prev) sl' e s)) g) = fRejected (filters s g)"
    using sc by simp
qed

theorem filter_counters_account_witness:
  "fresh {0, 1} 2 (loop_start 2) \<and> queries_ok {0, 1} 2 example_pass \<and>
   ascending (\<lambda>_. 0) example_pass \<and> (1::nat) \<in> {0, 1} \<and>
   fAccepted (filters (consult example_pass (loop_start 2)) 1) ! 1
      + fRejected (filters (consult example_pass (loop_start 2)) 1) ! 1
      = of_nat (length (evaluated 1 1 (trace (consult example_pass (loop_start 2))))) \<and>
   distinct (evaluated 1 1 (trace (consult example_pass (loop_start 2)))) \<and>
   (\<Sum>sl\<leftarrow>[0..<2]. fAccepted (filters (consult example_pass (loop_start 2)) 1) ! sl
            + fRejected (filters (consult example_pass (loop_start 2)) 1) ! sl)
            = of_nat (length (evaluated_at 1 (trace (consult example_pass (loop_start 2))))) \<and>
   distinct (evaluated_at 1 (trace (consult example_pass (loop_start 2)))) \<and>
   distinct (fids (Filter 1 (\<lambda>e. 5 < e + 1) even_filter)) \<and>
   slots_ok (Filter 1 (\<lambda>e. 5 < e + 1) even_filter) (loop_start 2) 1 \<and>
   memo_ok (Filter 1 (\<lambda>e. 5 < e + 1) even_filter) 1 2 (loop_start 2) \<and> \<not> passes even_filter 2 \<and>
   fAccepted (filters (snd (CheckFilters (Filter 1 (\<lambda>e. 5 < e + 1) even_filter) 1 2 (loop_start 2))) 1)
     = fAccepted (filters (loop_start 2) 1) \<and>
   fRejected (filters (snd (CheckFilters (Filter 1 (\<lambda>e. 5 < e + 1) even_filter) 1 2 (loop_start 2))) 1)
     = fRejected (filters (loop_start 2) 1)"
proof -
  have fr: "fresh {0, 1} 2 (loop_start 2)" by (rule fresh_loop_start)
  have h1: "queries_ok {0, 1} 2 example_pass"
    by (simp add: queries_ok_def query_ok_def example_pass_def big_filter_def even_filter_def)
  have h2: "ascending (\<lambda>_. 0) example_pass" by (simp add: example_pass_def)
  have h3: "(1::nat) \<in> {0, 1}" by simp
  have h4: "distinct (fids (Filter 1 (\<lambda>e. 5 < e + 1) even_filter))" by (simp add: even_filter_def)
  have h5: "slots_ok (Filter 1 (\<lambda>e. 5 < e + 1) even_filter) (loop_start 2) 1"
    using fr by (simp add: fresh_def slots_ok_def even_filter_def)
  have h6: "memo_ok (Filter 1 (\<lambda>e. 5 < e + 1) even_filter) 1 2 (loop_start 2)"
    using fr by (simp add: fresh_def even_filter_def)
  have h7: "\<not> passes even_filter 2" by (simp add: even_filter_def)
  have h8: "(1::nat) < 2" by simp
  from filter_counters_account[where F="{0, 1}" and nSlots="2" and ?s0.0="loop_start 2"
      and qs=example_pass and f="1" and g="1" and p="\<lambda>e. 5 < e + 1" and prev=even_filter
      and s="loop_start 2" and sl'="1" and e="2"] fr h1 h2 h3 h4 h5 h6 h7 h8
  show ?thesis by blast
qed

end
